theory Spec2Isabelle
  imports Main "HOL-Library.Word"
begin

unbundle bit_operations_syntax

section \<open>Data model of module-lindroid.c\<close>

type_synonym u8 = "8 word"
type_synonym u32 = "32 word"
type_synonym u64 = "64 word"

definition AUDIO_OUTPUT_PREFIX :: u8 where
  "AUDIO_OUTPUT_PREFIX = 0x01"

definition AUDIO_INPUT_PREFIX :: u8 where
  "AUDIO_INPUT_PREFIX = 0x02"

definition BUFFER_SIZE :: nat where
  "BUFFER_SIZE = 102400"

definition SPA_ID_INVALID :: u32 where
  "SPA_ID_INVALID = 0xffffffff"

definition ENOMEM :: int where
  "ENOMEM = 12"

definition EINVAL :: int where
  "EINVAL = 22"

text \<open>
  The three globals \<open>audio_buffer\<close>, \<open>audio_buffer_start\<close> and \<open>audio_buffer_end\<close>.
  The offsets are \<open>size_t\<close>; every value the code computes from them stays below
  \<open>2 * BUFFER_SIZE\<close>, so they are natural numbers here and the reductions modulo
  \<open>BUFFER_SIZE\<close> are written as in the source.
\<close>

record ring =
  audio_buffer :: "u8 list"
  audio_buffer_start :: nat
  audio_buffer_end :: nat

definition ring_init :: ring where
  "ring_init = \<lparr>audio_buffer = replicate BUFFER_SIZE 0,
                audio_buffer_start = 0, audio_buffer_end = 0\<rparr>"

text \<open>The offsets index the array: the state the code keeps between any two critical sections.\<close>

definition ring_inv :: "ring \<Rightarrow> bool" where
  "ring_inv r = (length (audio_buffer r) = BUFFER_SIZE \<and>
                 audio_buffer_start r < BUFFER_SIZE \<and> audio_buffer_end r < BUFFER_SIZE)"

text \<open>The unread bytes, oldest first: from \<open>start\<close> up to \<open>end\<close>, around the array's end.\<close>

definition ring_count :: "ring \<Rightarrow> nat" where
  "ring_count r = (audio_buffer_end r + BUFFER_SIZE - audio_buffer_start r) mod BUFFER_SIZE"

definition ring_contents :: "ring \<Rightarrow> u8 list" where
  "ring_contents r =
     map (\<lambda>k. audio_buffer r ! ((audio_buffer_start r + k) mod BUFFER_SIZE)) [0..<ring_count r]"

definition lastn :: "nat \<Rightarrow> 'a list \<Rightarrow> 'a list" where
  "lastn n xs = drop (length xs - n) xs"

text \<open>Stream buffers of the host graph (\<open>spa_chunk\<close>, \<open>spa_data\<close>, \<open>pw_buffer\<close>).
  A NULL data pointer is \<open>None\<close>.\<close>

record spa_chunk =
  chunk_offset :: u32
  chunk_size :: u32
  chunk_stride :: int

record spa_data =
  bd_data :: "u8 list option"
  bd_maxsize :: u32
  bd_chunk :: spa_chunk

record pw_buffer =
  b_datas0 :: spa_data
  b_size :: u64
  b_requested :: u64

type_synonym proxy = nat

text \<open>What a callback does to the outside world, in order.\<close>

datatype action =
    LogDebug string
  | LogInfo string
  | LogError string
  | Send "u8 list"
  | StreamQueueBuffer pw_buffer
  | CondSignal
  | CoreSync int
  | ProxyDestroy proxy
  | CoreCreateObject
  | ProxyAddListener proxy
  | Fault

record bitmap =
  bm_data :: "u8 list"
  bm_size :: nat
  bm_items :: u64

definition bitmap_empty :: bitmap where
  "bitmap_empty = \<lparr>bm_data = [], bm_size = 0, bm_items = 0\<rparr>"

record impl =
  sink :: "proxy option"
  sink_ids :: bitmap
  fallback_sink_ids :: bitmap
  check_seq :: int
  scheduled :: bool
  audio_socket_fd :: int

text \<open>The state \<open>calloc\<close> leaves in \<open>pipewire__module_init\<close>, before the first event.\<close>

definition impl_init :: impl where
  "impl_init = \<lparr>sink = None, sink_ids = bitmap_empty, fallback_sink_ids = bitmap_empty,
                check_seq = 0, scheduled = False, audio_socket_fd = 0\<rparr>"

section \<open>The ring buffer: producer\<close>

text \<open>One turn of the copy loop of \<open>socket_receive_thread\<close> (lines 131 to 135).\<close>

definition push_byte :: "ring \<Rightarrow> u8 \<Rightarrow> ring" where
  "push_byte r b =
     (let buf = (audio_buffer r)[audio_buffer_end r := b];
          e = (audio_buffer_end r + 1) mod BUFFER_SIZE;
          s = (if e = audio_buffer_start r
               then (audio_buffer_start r + 1) mod BUFFER_SIZE
               else audio_buffer_start r)
      in \<lparr>audio_buffer = buf, audio_buffer_start = s, audio_buffer_end = e\<rparr>)"

text \<open>The loop \<open>for (i = 1; i < bytesRead; ++i)\<close> over the payload bytes.\<close>

fun copy_loop :: "ring \<Rightarrow> u8 list \<Rightarrow> ring" where
  "copy_loop r [] = r"
| "copy_loop r (b # bs) = copy_loop (push_byte r b) bs"

text \<open>
  One turn of \<open>while (1)\<close> in \<open>socket_receive_thread\<close>: \<open>bytesRead\<close> is what \<open>recv\<close>
  returned and \<open>temp_buffer\<close> the scratch array it filled.
\<close>

definition socket_receive_iteration :: "ring \<Rightarrow> int \<Rightarrow> u8 list \<Rightarrow> ring \<times> action list" where
  "socket_receive_iteration r bytesRead temp_buffer =
     (if bytesRead \<le> 0 then (r, [LogError ''Failed to receive audio data''])
      else if temp_buffer ! 0 \<noteq> 0x02
        then (r, [LogError ''Invalid packet start byte, expected 0x02''])
      else (copy_loop r (take (nat bytesRead - 1) (drop 1 temp_buffer)), [CondSignal]))"

text \<open>A sequence of producer writes, each one payload.\<close>

fun ring_writes :: "ring \<Rightarrow> u8 list list \<Rightarrow> ring" where
  "ring_writes r [] = r"
| "ring_writes r (w # ws) = ring_writes (copy_loop r w) ws"

section \<open>The ring buffer: consumer\<close>

text \<open>
  The critical section of \<open>source_playback_process\<close> (lines 233 to 248). On an empty
  buffer the code waits on the condition for the producer; with no producer write the
  wait never ends, which is \<open>None\<close>. Otherwise the result is \<open>copy_size\<close>, the bytes
  \<open>memcpy\<close> reads from \<open>audio_buffer + audio_buffer_start\<close>, and the new state.
\<close>

definition ring_read :: "ring \<Rightarrow> nat \<Rightarrow> (nat \<times> u8 list \<times> ring) option" where
  "ring_read r requested_size =
     (if audio_buffer_start r = audio_buffer_end r then None
      else
        let available_size =
              (if audio_buffer_end r > audio_buffer_start r
               then audio_buffer_end r - audio_buffer_start r
               else BUFFER_SIZE - audio_buffer_start r);
            copy_size = min requested_size available_size
        in Some (copy_size,
                 take copy_size (drop (audio_buffer_start r) (audio_buffer r)),
                 r\<lparr>audio_buffer_start := (audio_buffer_start r + copy_size) mod BUFFER_SIZE\<rparr>))"

text \<open>Reads one after the other, the returned bytes concatenated.\<close>

fun ring_reads :: "ring \<Rightarrow> nat list \<Rightarrow> (u8 list \<times> ring) option" where
  "ring_reads r [] = Some ([], r)"
| "ring_reads r (m # ms) =
     (case ring_read r m of
        None \<Rightarrow> None
      | Some (n, out, r') \<Rightarrow>
          (case ring_reads r' ms of
             None \<Rightarrow> None
           | Some (rest, r'') \<Rightarrow> Some (out @ rest, r'')))"

text \<open>The bytes returned by a sequence of reads that leaves the buffer empty.\<close>

definition drained_output :: "ring \<Rightarrow> nat list \<Rightarrow> u8 list option" where
  "drained_output r ms =
     (case ring_reads r ms of
        None \<Rightarrow> None
      | Some (out, r') \<Rightarrow>
          if audio_buffer_start r' = audio_buffer_end r' then Some out else None)"

section \<open>The stream callbacks\<close>

text \<open>
  \<open>playback_stream_process\<close>: \<open>deq\<close> is what \<open>pw_stream_dequeue_buffer\<close> returned and
  \<open>sent\<close> what \<open>send\<close> returns if it is called. The code does not test the data pointer:
  \<open>memcpy\<close> of at least one byte through a NULL one is a fault, and of no byte it reads
  nothing.
\<close>

definition playback_stream_process :: "impl \<Rightarrow> pw_buffer option \<Rightarrow> int \<Rightarrow> action list" where
  "playback_stream_process im deq sent =
     (case deq of
        None \<Rightarrow> [LogDebug ''out of buffers'']
      | Some buf \<Rightarrow>
          let bd = b_datas0 buf;
              offs = min (chunk_offset (bd_chunk bd)) (bd_maxsize bd);
              size = min (chunk_size (bd_chunk bd)) (bd_maxsize bd - offs)
          in if audio_socket_fd im \<noteq> - 1 then
               if size \<ge> 10239 then [LogError ''buffer too big'']
               else if size \<noteq> 0 \<and> bd_data bd = None then [Fault]
               else
                 let prefixed_data =
                       AUDIO_OUTPUT_PREFIX #
                       (case bd_data bd of
                          None \<Rightarrow> []
                        | Some d \<Rightarrow> take (unat size) (drop (unat offs) d))
                 in [Send prefixed_data,
                     if sent = - 1 then LogError ''Failed to send audio data''
                     else LogInfo ''Sent bytes of audio data'',
                     StreamQueueBuffer buf]
             else [LogError ''Audio socket is not connected'', StreamQueueBuffer buf])"

text \<open>
  \<open>source_playback_process\<close>: the result is the ring, the dequeued buffer as the
  callback leaves it in memory, and the actions; \<open>None\<close> when the wait never ends.
\<close>

definition source_playback_process ::
  "ring \<Rightarrow> pw_buffer option \<Rightarrow> (ring \<times> pw_buffer option \<times> action list) option" where
  "source_playback_process r deq =
     (case deq of
        None \<Rightarrow> Some (r, None, [LogDebug ''Out of playback buffers''])
      | Some b \<Rightarrow>
          (case bd_data (b_datas0 b) of
             None \<Rightarrow> Some (r, Some b, [])
           | Some dst \<Rightarrow>
               let requested_size = min (b_requested b * 4) (ucast (bd_maxsize (b_datas0 b)) :: u64)
               in (case ring_read r (unat requested_size) of
                     None \<Rightarrow> None
                   | Some (copy_size, bytes, r') \<Rightarrow>
                       let bd' = (b_datas0 b)\<lparr>
                                   bd_data := Some (bytes @ drop copy_size dst),
                                   bd_chunk := \<lparr>chunk_offset = 0, chunk_size = of_nat copy_size,
                                                chunk_stride = 4\<rparr>\<rparr>;
                           b' = b\<lparr>b_datas0 := bd', b_size := of_nat (copy_size div 4)\<rparr>
                       in Some (r', Some b', [StreamQueueBuffer b']))))"

text \<open>
  The formats \<open>parse_audio_info\<close> and \<open>parse_audio_info_mic\<close> register for the playback
  and the capture stream.

  Modelled from the spec: the type tables behind \<open>format_from_name\<close> and
  \<open>channel_from_name\<close> and the tokenizer \<open>spa_json_get_string\<close> belong to the host library.
  The tables hold the entries the spec names (16-bit signed PCM; mono, front left, front
  right), and \<open>parse_position\<close> takes the position string already split into its names.
\<close>

datatype audio_format = SPA_AUDIO_FORMAT_UNKNOWN | SPA_AUDIO_FORMAT_S16

datatype audio_channel =
    SPA_AUDIO_CHANNEL_UNKNOWN
  | SPA_AUDIO_CHANNEL_MONO
  | SPA_AUDIO_CHANNEL_FL
  | SPA_AUDIO_CHANNEL_FR

record spa_audio_info_raw =
  format :: audio_format
  rate :: u32
  channels :: u32
  position :: "audio_channel list"

definition SPA_AUDIO_MAX_CHANNELS :: nat where
  "SPA_AUDIO_MAX_CHANNELS = 64"

definition format_from_name :: "string \<Rightarrow> audio_format" where
  "format_from_name name =
     (if name = ''S16'' then SPA_AUDIO_FORMAT_S16 else SPA_AUDIO_FORMAT_UNKNOWN)"

definition channel_from_name :: "string \<Rightarrow> audio_channel" where
  "channel_from_name name =
     (if name = ''MONO'' then SPA_AUDIO_CHANNEL_MONO
      else if name = ''FL'' then SPA_AUDIO_CHANNEL_FL
      else if name = ''FR'' then SPA_AUDIO_CHANNEL_FR
      else SPA_AUDIO_CHANNEL_UNKNOWN)"

definition parse_position :: "spa_audio_info_raw \<Rightarrow> string list \<Rightarrow> spa_audio_info_raw" where
  "parse_position info names =
     info\<lparr>channels := of_nat (length (take SPA_AUDIO_MAX_CHANNELS names)),
          position := map channel_from_name (take SPA_AUDIO_MAX_CHANNELS names)\<rparr>"

definition parse_audio_info :: spa_audio_info_raw where
  "parse_audio_info =
     parse_position
       \<lparr>format = format_from_name ''S16'', rate = 48000, channels = 2, position = []\<rparr>
       [''FL'', ''FR'']"

definition parse_audio_info_mic :: spa_audio_info_raw where
  "parse_audio_info_mic =
     parse_position
       \<lparr>format = format_from_name ''S16'', rate = 48000, channels = 1, position = []\<rparr>
       [''MONO'']"

text \<open>Bytes of one sample-frame of a format: channels times the width of a sample.\<close>

definition sample_bytes :: "audio_format \<Rightarrow> nat" where
  "sample_bytes f = (case f of SPA_AUDIO_FORMAT_S16 \<Rightarrow> 2 | SPA_AUDIO_FORMAT_UNKNOWN \<Rightarrow> 0)"

definition frame_bytes :: "spa_audio_info_raw \<Rightarrow> nat" where
  "frame_bytes info = unat (channels info) * sample_bytes (format info)"

section \<open>Sparse bitmaps\<close>

text \<open>Bit \<open>i\<close> of the map, as \<open>map->data[pos] & mask\<close> reads it where \<open>pos\<close> is in range.\<close>

definition bitmap_test :: "bitmap \<Rightarrow> u32 \<Rightarrow> bool" where
  "bitmap_test m i =
     (let pos = unat (drop_bit 3 i);
          mask = (push_bit (unat (i AND 0x7)) 1 :: u8)
      in pos < bm_size m \<and> bm_data m ! pos AND mask \<noteq> 0)"

text \<open>The number of set bits of the array.\<close>

definition bitmap_bits :: "bitmap \<Rightarrow> nat" where
  "bitmap_bits m =
     length (filter (\<lambda>k. bit (bm_data m ! (k div 8)) (k mod 8)) [0..<8 * bm_size m])"

text \<open>
  \<open>bitmap_add\<close>: \<open>alloc_ok\<close> says whether \<open>realloc\<close> succeeds if it is called; a failed
  \<open>realloc\<close> sets \<open>errno\<close> to \<open>ENOMEM\<close>.
\<close>

definition bitmap_add :: "bitmap \<Rightarrow> u32 \<Rightarrow> bool \<Rightarrow> int \<times> bitmap" where
  "bitmap_add m i alloc_ok =
     (let pos = unat (drop_bit 3 i);
          mask = (push_bit (unat (i AND 0x7)) 1 :: u8)
      in if pos \<ge> bm_size m \<and> \<not> alloc_ok then (- ENOMEM, m)
         else
           let m1 = (if pos \<ge> bm_size m
                     then let new_size = bm_size m + pos + 16
                          in m\<lparr>bm_data := bm_data m @ replicate (new_size - bm_size m) 0,
                               bm_size := new_size\<rparr>
                     else m)
           in if bm_data m1 ! pos AND mask \<noteq> 0 then (1, m1)
              else (0, m1\<lparr>bm_data := (bm_data m1)[pos := bm_data m1 ! pos OR mask],
                          bm_items := bm_items m1 + 1\<rparr>))"

definition bitmap_remove :: "bitmap \<Rightarrow> u32 \<Rightarrow> bool \<times> bitmap" where
  "bitmap_remove m i =
     (let pos = unat (drop_bit 3 i);
          mask = (push_bit (unat (i AND 0x7)) 1 :: u8)
      in if pos \<ge> bm_size m then (False, m)
         else if \<not> (bm_data m ! pos AND mask \<noteq> 0) then (False, m)
         else (True, m\<lparr>bm_data := (bm_data m)[pos := bm_data m ! pos AND NOT mask],
                        bm_items := bm_items m - 1\<rparr>))"

definition add_id :: "bitmap \<Rightarrow> u32 \<Rightarrow> bool \<Rightarrow> int \<times> bitmap \<times> action list" where
  "add_id m ident alloc_ok =
     (if ident = SPA_ID_INVALID then (- EINVAL, m, [])
      else let (res, m') = bitmap_add m ident alloc_ok
           in (res, m', if res < 0 then [LogError ''add_id''] else []))"

datatype bitmap_op = Add u32 bool | Remove u32

fun bitmap_apply :: "bitmap \<Rightarrow> bitmap_op \<Rightarrow> bitmap" where
  "bitmap_apply m (Add i alloc_ok) = snd (bitmap_add m i alloc_ok)"
| "bitmap_apply m (Remove i) = snd (bitmap_remove m i)"

fun bitmap_run :: "bitmap \<Rightarrow> bitmap_op list \<Rightarrow> bitmap" where
  "bitmap_run m [] = m"
| "bitmap_run m (x # xs) = bitmap_run (bitmap_apply m x) xs"

section \<open>Sink reconciliation\<close>

text \<open>
  \<open>pw_core_sync\<close> belongs to the host; \<open>ret\<close> is the sequence number it returns
  if the function calls it.
\<close>

definition reschedule_check :: "impl \<Rightarrow> int \<Rightarrow> impl \<times> action list" where
  "reschedule_check im ret =
     (if \<not> scheduled im then (im, [])
      else (im\<lparr>check_seq := ret\<rparr>, [CoreSync (check_seq im)]))"

definition schedule_check :: "impl \<Rightarrow> int \<Rightarrow> impl \<times> action list" where
  "schedule_check im ret =
     (if scheduled im then (im, [])
      else (im\<lparr>scheduled := True, check_seq := ret\<rparr>, [CoreSync (check_seq im)]))"


text \<open>
  \<open>pw_proxy_destroy\<close> emits the proxy's destroy event before it returns; the listener
  \<open>sink_create\<close> installs for it is \<open>sink_proxy_destroy\<close>.
\<close>

definition sink_proxy_destroy :: "impl \<Rightarrow> impl \<times> action list" where
  "sink_proxy_destroy im = (im\<lparr>sink := None\<rparr>, [LogDebug ''fallback dummy sink destroyed''])"

text \<open>
  \<open>sink_create\<close>: \<open>created\<close> is what \<open>pw_core_create_object\<close> returns if it is
  called, \<open>Inl errno\<close> for NULL.
\<close>

definition sink_create :: "impl \<Rightarrow> int + proxy \<Rightarrow> int \<times> impl \<times> action list" where
  "sink_create im created =
     (case sink im of
        Some p \<Rightarrow> (0, im, [])
      | None \<Rightarrow>
          (case created of
             Inl errno \<Rightarrow>
               (- errno, im\<lparr>sink := None\<rparr>,
                [LogInfo ''creating fallback dummy sink'', CoreCreateObject])
           | Inr p \<Rightarrow>
               (0, im\<lparr>sink := Some p\<rparr>,
                [LogInfo ''creating fallback dummy sink'', CoreCreateObject,
                 ProxyAddListener p])))"

definition sink_destroy :: "impl \<Rightarrow> impl \<times> action list" where
  "sink_destroy im =
     (case sink im of
        None \<Rightarrow> (im, [])
      | Some p \<Rightarrow>
          let (im', a) = sink_proxy_destroy im
          in (im', [LogInfo ''removing fallback dummy sink'', ProxyDestroy p] @ a))"

definition check_sinks :: "impl \<Rightarrow> int + proxy \<Rightarrow> impl \<times> action list" where
  "check_sinks im created =
     (if bm_items (sink_ids im) > bm_items (fallback_sink_ids im)
      then let (im', a) = sink_destroy im
           in (im', LogDebug ''seeing sinks'' # a)
      else let (res, im', a) = sink_create im created
           in (im', LogDebug ''seeing sinks'' # a @
                    (if res < 0 then [LogError ''error creating sink''] else [])))"

definition PW_TYPE_INTERFACE_Node :: string where
  "PW_TYPE_INTERFACE_Node = ''PipeWire:Interface:Node''"

definition PW_KEY_MEDIA_CLASS :: string where
  "PW_KEY_MEDIA_CLASS = ''media.class''"

text \<open>\<open>spa_streq\<close> on two strings either of which may be NULL.\<close>

definition spa_streq :: "string option \<Rightarrow> string option \<Rightarrow> bool" where
  "spa_streq a b =
     (case (a, b) of
        (Some x, Some y) \<Rightarrow> x = y
      | (None, None) \<Rightarrow> True
      | _ \<Rightarrow> False)"

text \<open>
  \<open>registry_event_global\<close>: \<open>props\<close> is the property dictionary (NULL is \<open>None\<close>),
  looked up by key as \<open>spa_dict_lookup\<close> does.
\<close>

definition registry_event_global ::
  "impl \<Rightarrow> u32 \<Rightarrow> string option \<Rightarrow> (string \<rightharpoonup> string) option \<Rightarrow> bool \<Rightarrow> int \<Rightarrow> int
     \<Rightarrow> impl \<times> action list" where
  "registry_event_global im ident type props alloc_ok ret1 ret2 =
     (let (im1, a1) = reschedule_check im ret1
      in case props of
           None \<Rightarrow> (im1, a1)
         | Some dict \<Rightarrow>
             if \<not> spa_streq type (Some PW_TYPE_INTERFACE_Node) then (im1, a1)
             else
               let str = dict PW_KEY_MEDIA_CLASS
               in if \<not> (spa_streq str (Some ''Audio/Sink'') \<or>
                         spa_streq str (Some ''Audio/Sink/Virtual''))
                  then (im1, a1)
                  else
                    let (res, s', a2) = add_id (sink_ids im1) ident alloc_ok;
                        im2 = im1\<lparr>sink_ids := s'\<rparr>;
                        (im3, a3) = schedule_check im2 ret2
                    in (im3, a1 @ a2 @ a3))"


definition core_done :: "impl \<Rightarrow> u32 \<Rightarrow> int \<Rightarrow> int + proxy \<Rightarrow> impl \<times> action list" where
  "core_done im ident seq created =
     (if seq = check_seq im then check_sinks (im\<lparr>scheduled := False\<rparr>) created
      else (im, []))"





text \<open>The properties of a sink-type object, as \<open>registry_event_global\<close> recognises it.\<close>

definition sink_type :: "string option \<Rightarrow> (string \<rightharpoonup> string) option \<Rightarrow> bool" where
  "sink_type type props =
     (case props of
        None \<Rightarrow> False
      | Some dict \<Rightarrow>
          type = Some PW_TYPE_INTERFACE_Node \<and>
          (dict PW_KEY_MEDIA_CLASS = Some ''Audio/Sink'' \<or>
           dict PW_KEY_MEDIA_CLASS = Some ''Audio/Sink/Virtual''))"

section \<open>Observations, invariants and sample inputs\<close>

text \<open>The positions of the set bits of the array, for the proofs.\<close>

definition bits_set :: "bitmap \<Rightarrow> nat set" where
  "bits_set m = {k. k < 8 * bm_size m \<and> bit (bm_data m ! (k div 8)) (k mod 8)}"

text \<open>The \<open>size\<close> field is the length of the allocated array.\<close>

definition bm_wf :: "bitmap \<Rightarrow> bool" where
  "bm_wf m = (length (bm_data m) = bm_size m)"

text \<open>What \<open>bitmap_add\<close> and \<open>bitmap_remove\<close> keep: the counter is the number of set bits,
  and no bit beyond a 32-bit id is set.\<close>

definition bm_inv :: "bitmap \<Rightarrow> bool" where
  "bm_inv m = (bm_wf m \<and> (\<forall>k\<in>bits_set m. k < 2 ^ 32) \<and> unat (bm_items m) = card (bits_set m))"

text \<open>The barrier requests (\<open>pw_core_sync\<close>) among the actions of a handler.\<close>

fun is_sync :: "action \<Rightarrow> bool" where
  "is_sync (CoreSync s) = True"
| "is_sync _ = False"

definition barriers :: "action list \<Rightarrow> nat" where
  "barriers acts = length (filter is_sync acts)"

text \<open>The proxies destroyed and the objects created among the actions of a handler.\<close>

fun destroyed :: "action list \<Rightarrow> proxy list" where
  "destroyed [] = []"
| "destroyed (ProxyDestroy p # as) = p # destroyed as"
| "destroyed (a # as) = destroyed as"

definition creations :: "action list \<Rightarrow> nat" where
  "creations acts = count_list acts CoreCreateObject"

text \<open>The buffers handed back to the stream with \<open>pw_stream_queue_buffer\<close>.\<close>

fun queued :: "action list \<Rightarrow> pw_buffer list" where
  "queued [] = []"
| "queued (StreamQueueBuffer b # as) = b # queued as"
| "queued (a # as) = queued as"

text \<open>Concrete buffers, states and event sequences the theorems below are evaluated at.\<close>

definition big_buffer :: pw_buffer where
  "big_buffer = \<lparr>b_datas0 = \<lparr>bd_data = Some (replicate 10239 0), bd_maxsize = 10239,
       bd_chunk = \<lparr>chunk_offset = 0, chunk_size = 10239, chunk_stride = 4\<rparr>\<rparr>,
     b_size = 0, b_requested = 0\<rparr>"

definition null_buffer :: pw_buffer where
  "null_buffer = \<lparr>b_datas0 = \<lparr>bd_data = None, bd_maxsize = 1024,
       bd_chunk = \<lparr>chunk_offset = 7, chunk_size = 9, chunk_stride = 2\<rparr>\<rparr>,
     b_size = 0, b_requested = 256\<rparr>"

definition impl_with_sink :: impl where
  "impl_with_sink = impl_init\<lparr>sink := Some 7, check_seq := 4, scheduled := True\<rparr>"

definition sink_props :: "(string \<rightharpoonup> string) option" where
  "sink_props = Some [''media.class'' \<mapsto> ''Audio/Sink'']"

definition node_type :: "string option" where
  "node_type = Some ''PipeWire:Interface:Node''"

definition impl_seen5 :: impl where
  "impl_seen5 = fst (core_done (fst (registry_event_global impl_init 5 node_type sink_props True 1 2)) 0 2 (Inr 9))"



definition ops_5_9 :: "bitmap_op list" where
  "ops_5_9 = [Add 5 True, Add 9 True, Add 5 True, Remove 5, Remove 5, Add 1000 False]"

text \<open>The contiguous run as the specification words it: \<open>end - start\<close> if \<open>end > start\<close>,
  else \<open>C - start\<close>.\<close>

definition availableContiguous :: "ring \<Rightarrow> nat" where
  "availableContiguous r =
     (if audio_buffer_end r > audio_buffer_start r
      then audio_buffer_end r - audio_buffer_start r
      else BUFFER_SIZE - audio_buffer_start r)"

text \<open>Read requests that empty any buffer: none, one, or two when the unread bytes wrap.\<close>

definition drain_plan :: "ring \<Rightarrow> nat list" where
  "drain_plan r =
     (if audio_buffer_start r = audio_buffer_end r then []
      else if audio_buffer_start r < audio_buffer_end r \<or> audio_buffer_end r = 0
        then [BUFFER_SIZE]
      else [BUFFER_SIZE, BUFFER_SIZE])"

text \<open>Concrete ring states, payloads and capture buffers the theorems below are evaluated at.\<close>

definition wrapped_ring :: ring where
  "wrapped_ring = ring_init\<lparr>audio_buffer_start := 102398, audio_buffer_end := 2\<rparr>"

definition long_writes :: "u8 list list" where
  "long_writes = [replicate 102400 7, [1, 2, 3]]"

definition short_writes :: "u8 list list" where
  "short_writes = [[1, 2], [3]]"

definition ring6 :: ring where
  "ring6 = \<lparr>audio_buffer = [1, 2, 3, 4, 5, 6] @ replicate 102394 0,
            audio_buffer_start = 0, audio_buffer_end = 6\<rparr>"

definition one_frame_buffer :: pw_buffer where
  "one_frame_buffer = \<lparr>b_datas0 = \<lparr>bd_data = Some (replicate 1024 0), bd_maxsize = 1024,
       bd_chunk = \<lparr>chunk_offset = 0, chunk_size = 0, chunk_stride = 0\<rparr>\<rparr>,
     b_size = 0, b_requested = 1\<rparr>"

definition one_frame_result :: pw_buffer where
  "one_frame_result = \<lparr>b_datas0 = \<lparr>bd_data = Some ([1, 2, 3, 4] @ replicate 1020 0),
       bd_maxsize = 1024,
       bd_chunk = \<lparr>chunk_offset = 0, chunk_size = 4, chunk_stride = 4\<rparr>\<rparr>,
     b_size = 1, b_requested = 1\<rparr>"

section \<open>Bitmaps: the counter and the set bits\<close>

lemma bitmap_bits_card: "bitmap_bits m = card (bits_set m)"
proof -
  let ?F = "filter (\<lambda>k. bit (bm_data m ! (k div 8)) (k mod 8)) [0..<8 * bm_size m]"
  have "bits_set m = set ?F"
    by (auto simp: bits_set_def)
  moreover have "card (set ?F) = length ?F"
    by (rule distinct_card) simp
  ultimately show ?thesis
    by (simp add: bitmap_bits_def)
qed

lemma finite_bits_set: "finite (bits_set m)"
  by (simp add: bits_set_def)

lemma pos_eq: "unat (drop_bit 3 (i::u32)) = unat i div 8"
  by (simp add: unat_drop_bit_eq drop_bit_eq_div unat_div)

lemma idx_eq: "unat ((i::u32) AND 0x7) = unat i mod 8"
proof -
  have "(i AND 0x7) = take_bit 3 i"
    by (simp add: take_bit_eq_mask mask_eq_exp_minus_1)
  moreover have "unat (take_bit 3 i) = take_bit 3 (unat i)"
    by (rule unsigned_take_bit_eq)
  moreover have "take_bit 3 (unat i) = unat i mod 8"
    by (simp add: take_bit_eq_mod)
  ultimately show ?thesis
    by simp
qed

lemma mask_test: "n < 8 \<Longrightarrow> ((w::u8) AND push_bit n 1 \<noteq> 0) = bit w n"
  by (simp add: bit_iff_and_push_bit_not_eq_0)

lemma mask_test2: "n < 8 \<Longrightarrow> ((w::u8) AND 2 ^ n \<noteq> 0) = bit w n"
  using mask_test [of n w] by simp

lemma mask_or: "n < 8 \<Longrightarrow> k < 8 \<Longrightarrow> bit ((w::u8) OR push_bit n 1) k = (bit w k \<or> k = n)"
  by (auto simp add: bit_simps)

lemma mask_clear: "n < 8 \<Longrightarrow> k < 8 \<Longrightarrow> bit ((w::u8) AND NOT (push_bit n 1)) k = (bit w k \<and> k \<noteq> n)"
  by (auto simp add: bit_simps)

lemma mask_or2: "n < 8 \<Longrightarrow> k < 8 \<Longrightarrow> bit ((w::u8) OR 2 ^ n) k = (bit w k \<or> k = n)"
  using mask_or [of n k w] by simp

lemma mask_clear2: "n < 8 \<Longrightarrow> k < 8 \<Longrightarrow> bit ((w::u8) AND NOT (2 ^ n)) k = (bit w k \<and> k \<noteq> n)"
  using mask_clear [of n k w] by simp

lemma idx_lt8: "unat ((i::u32) AND 0x7) < 8"
  by (simp add: idx_eq)

lemma test_iff: "bitmap_test m i = (unat i \<in> bits_set m)"
proof -
  have "(unat i div 8 < bm_size m) = (unat i < 8 * bm_size m)"
    by (simp add: less_mult_imp_div_less div_less_iff_less_mult mult.commute)
  then show ?thesis
    by (simp add: bitmap_test_def bits_set_def Let_def pos_eq mask_test2 idx_eq)
qed

lemma div8_less: "((k::nat) div 8 < s) = (k < 8 * s)"
  by (simp add: div_less_iff_less_mult mult.commute)

lemma bits_set_grow:
  assumes "bm_wf m"
  shows "bits_set (m\<lparr>bm_data := bm_data m @ replicate n 0, bm_size := bm_size m + n\<rparr>) = bits_set m"
proof -
  have len: "length (bm_data m) = bm_size m" using assms by (simp add: bm_wf_def)
  have "k \<in> bits_set (m\<lparr>bm_data := bm_data m @ replicate n 0, bm_size := bm_size m + n\<rparr>)
          \<longleftrightarrow> k \<in> bits_set m" for k
  proof (cases "k div 8 < bm_size m")
    case True
    then have "k < 8 * bm_size m" by (simp add: div8_less)
    with True len show ?thesis by (simp add: bits_set_def nth_append)
  next
    case False
    then have nk: "\<not> k < 8 * bm_size m" by (simp add: div8_less)
    show ?thesis
    proof (cases "k < 8 * (bm_size m + n)")
      case True
      then have "k div 8 < bm_size m + n" by (simp only: div8_less)
      then have "k div 8 - bm_size m < n" using False by simp
      with False len nk show ?thesis by (simp add: bits_set_def nth_append)
    next
      case False
      with nk show ?thesis by (simp add: bits_set_def)
    qed
  qed
  then show ?thesis by blast
qed

lemma bits_set_or:
  assumes "bm_wf m" "pos < bm_size m" "n < 8"
  shows "bits_set (m\<lparr>bm_data := (bm_data m)[pos := bm_data m ! pos OR push_bit n 1]\<rparr>)
         = insert (8 * pos + n) (bits_set m)"
proof -
  have len: "length (bm_data m) = bm_size m" using assms by (simp add: bm_wf_def)
  have eq: "\<And>k. k div 8 = pos \<and> k mod 8 = n \<longleftrightarrow> k = 8 * pos + n"
    using assms(3) by auto
  show ?thesis
  proof (rule set_eqI)
    fix k
    show "k \<in> bits_set (m\<lparr>bm_data := (bm_data m)[pos := bm_data m ! pos OR push_bit n 1]\<rparr>)
          \<longleftrightarrow> k \<in> insert (8 * pos + n) (bits_set m)"
    proof (cases "k div 8 = pos")
      case True
      then have "k < 8 * bm_size m" using assms(2) div8_less [of k "bm_size m"] by simp
      moreover have "k mod 8 < 8" by simp
      ultimately show ?thesis
        using True len assms eq [of k]
        by (auto simp: bits_set_def mask_or2)
    next
      case False
      then have "k \<noteq> 8 * pos + n" using assms(3) by auto
      with False show ?thesis
        by (simp add: bits_set_def)
    qed
  qed
qed

lemma bits_set_clear:
  assumes "bm_wf m" "pos < bm_size m" "n < 8"
  shows "bits_set (m\<lparr>bm_data := (bm_data m)[pos := bm_data m ! pos AND NOT (push_bit n 1)]\<rparr>)
         = bits_set m - {8 * pos + n}"
proof -
  have len: "length (bm_data m) = bm_size m" using assms by (simp add: bm_wf_def)
  have eq: "\<And>k. k div 8 = pos \<and> k mod 8 = n \<longleftrightarrow> k = 8 * pos + n"
    using assms(3) by auto
  show ?thesis
  proof (rule set_eqI)
    fix k
    show "k \<in> bits_set (m\<lparr>bm_data := (bm_data m)[pos := bm_data m ! pos AND NOT (push_bit n 1)]\<rparr>)
          \<longleftrightarrow> k \<in> bits_set m - {8 * pos + n}"
    proof (cases "k div 8 = pos")
      case True
      then have "k < 8 * bm_size m" using assms(2) div8_less [of k "bm_size m"] by simp
      moreover have "k mod 8 < 8" by simp
      ultimately show ?thesis
        using True len assms eq [of k]
        by (auto simp: bits_set_def mask_clear2)
    next
      case False
      then have "k \<noteq> 8 * pos + n" using assms(3) by auto
      with False show ?thesis
        by (simp add: bits_set_def)
    qed
  qed
qed

lemma bits_set_items [simp]: "bits_set (m\<lparr>bm_items := x\<rparr>) = bits_set m"
  by (simp add: bits_set_def)

lemma bm_wf_grow: "bm_wf m \<Longrightarrow> bm_wf (m\<lparr>bm_data := bm_data m @ replicate n 0, bm_size := bm_size m + n\<rparr>)"
  by (simp add: bm_wf_def)

lemma add_present:
  assumes "bitmap_test m i"
  shows "bitmap_add m i a = (1, m)"
proof -
  from assms have "unat (drop_bit 3 i) < bm_size m"
    and "bm_data m ! unat (drop_bit 3 i) AND push_bit (unat (i AND 0x7)) 1 \<noteq> 0"
    by (simp_all add: bitmap_test_def Let_def)
  then show ?thesis
    by (simp add: bitmap_add_def Let_def)
qed

lemma add_nomem:
  assumes "bm_size m \<le> unat (drop_bit 3 i)" "\<not> a"
  shows "bitmap_add m i a = (- ENOMEM, m)"
  using assms by (simp add: bitmap_add_def Let_def)

lemma add_fresh:
  assumes wf: "bm_wf m" and fresh: "\<not> bitmap_test m i"
    and ok: "a \<or> unat (drop_bit 3 i) < bm_size m"
  shows "fst (bitmap_add m i a) = 0"
    and "bits_set (snd (bitmap_add m i a)) = insert (unat i) (bits_set m)"
    and "bm_items (snd (bitmap_add m i a)) = bm_items m + 1"
    and "bm_wf (snd (bitmap_add m i a))"
proof -
  define pos where "pos = unat (drop_bit 3 i)"
  define n where "n = unat (i AND 0x7)"
  define m1 where "m1 = (if pos \<ge> bm_size m
        then m\<lparr>bm_data := bm_data m @ replicate (pos + 16) 0, bm_size := bm_size m + (pos + 16)\<rparr>
        else m)"
  have n8: "n < 8" by (simp add: n_def idx_lt8)
  have wf1: "bm_wf m1" using wf by (simp add: m1_def bm_wf_grow)
  have set1: "bits_set m1 = bits_set m" using wf by (simp add: m1_def bits_set_grow)
  have pos1: "pos < bm_size m1" by (simp add: m1_def)
  have items1: "bm_items m1 = bm_items m" by (simp add: m1_def)
  have "8 * pos + n = unat i"
    by (simp add: pos_def n_def pos_eq idx_eq)
  then have notin: "8 * pos + n \<notin> bits_set m1"
    using fresh by (simp add: test_iff set1)
  have "(8 * pos + n) div 8 = pos" "(8 * pos + n) mod 8 = n" using n8 by simp_all
  then have zero: "\<not> (bm_data m1 ! pos AND push_bit n 1 \<noteq> 0)"
    using notin pos1 n8 by (simp add: bits_set_def mask_test del: push_bit_of_1)
  have res: "bitmap_add m i a =
      (0, m1\<lparr>bm_data := (bm_data m1)[pos := bm_data m1 ! pos OR push_bit n 1],
              bm_items := bm_items m1 + 1\<rparr>)"
  proof (cases "bm_size m \<le> pos")
    case True
    then have "a" using ok by (simp add: pos_def)
    moreover have "(bm_data m @ replicate (pos + 16) 0) ! pos AND push_bit n 1 = 0"
      using zero True by (simp add: m1_def del: push_bit_of_1)
    ultimately show ?thesis
      using True
      by (simp add: bitmap_add_def Let_def pos_def [symmetric] n_def [symmetric] m1_def
               del: push_bit_of_1)
  next
    case False
    moreover have "bm_data m ! pos AND push_bit n 1 = 0"
      using zero False by (simp add: m1_def del: push_bit_of_1)
    ultimately show ?thesis
      by (simp add: bitmap_add_def Let_def pos_def [symmetric] n_def [symmetric] m1_def
               del: push_bit_of_1)
  qed
  show "fst (bitmap_add m i a) = 0" by (simp add: res)
  show "bm_items (snd (bitmap_add m i a)) = bm_items m + 1" by (simp add: res items1)
  show "bm_wf (snd (bitmap_add m i a))" using wf1 by (simp add: res bm_wf_def)
  have "bits_set (snd (bitmap_add m i a)) = insert (8 * pos + n) (bits_set m1)"
    using bits_set_or [OF wf1 pos1 n8] by (simp add: res del: push_bit_of_1)
  then show "bits_set (snd (bitmap_add m i a)) = insert (unat i) (bits_set m)"
    using \<open>8 * pos + n = unat i\<close> set1 by simp
qed

lemma remove_absent:
  assumes "\<not> bitmap_test m i"
  shows "bitmap_remove m i = (False, m)"
  using assms by (auto simp add: bitmap_test_def bitmap_remove_def Let_def)

lemma remove_present:
  assumes wf: "bm_wf m" and pres: "bitmap_test m i"
  shows "fst (bitmap_remove m i) = True"
    and "bits_set (snd (bitmap_remove m i)) = bits_set m - {unat i}"
    and "bm_items (snd (bitmap_remove m i)) = bm_items m - 1"
    and "bm_wf (snd (bitmap_remove m i))"
proof -
  define pos where "pos = unat (drop_bit 3 i)"
  define n where "n = unat (i AND 0x7)"
  have n8: "n < 8" by (simp add: n_def idx_lt8)
  from pres have pos1: "pos < bm_size m"
    and set: "bm_data m ! pos AND push_bit n 1 \<noteq> 0"
    by (simp_all add: bitmap_test_def Let_def pos_def n_def)
  have eq: "8 * pos + n = unat i"
    by (simp add: pos_def n_def pos_eq idx_eq)
  have res: "bitmap_remove m i =
      (True, m\<lparr>bm_data := (bm_data m)[pos := bm_data m ! pos AND NOT (push_bit n 1)],
                 bm_items := bm_items m - 1\<rparr>)"
    using pos1 set
    by (simp add: bitmap_remove_def Let_def pos_def [symmetric] n_def [symmetric] del: push_bit_of_1)
  show "fst (bitmap_remove m i) = True" by (simp add: res)
  show "bm_items (snd (bitmap_remove m i)) = bm_items m - 1" by (simp add: res)
  show "bm_wf (snd (bitmap_remove m i))" using wf by (simp add: res bm_wf_def)
  show "bits_set (snd (bitmap_remove m i)) = bits_set m - {unat i}"
    using bits_set_clear [OF wf pos1 n8] eq by (simp add: res del: push_bit_of_1)
qed

lemma card_bits_bound:
  assumes "\<forall>k\<in>bits_set m. k < 2 ^ 32"
  shows "card (bits_set m) \<le> 2 ^ 32"
proof -
  have "bits_set m \<subseteq> {..<2 ^ 32}" using assms by auto
  then have "card (bits_set m) \<le> card {..<(2::nat) ^ 32}"
    by (intro card_mono) simp_all
  then show ?thesis by simp
qed

lemma bm_inv_add:
  assumes "bm_inv m"
  shows "bm_inv (snd (bitmap_add m i a))"
proof -
  from assms have wf: "bm_wf m" and bound: "\<forall>k\<in>bits_set m. k < 2 ^ 32"
    and cnt: "unat (bm_items m) = card (bits_set m)"
    by (simp_all add: bm_inv_def)
  show ?thesis
  proof (cases "bitmap_test m i")
    case True
    then show ?thesis using assms by (simp add: add_present)
  next
    case False
    show ?thesis
    proof (cases "a \<or> unat (drop_bit 3 i) < bm_size m")
      case True
      note f = add_fresh [OF wf False True]
      have ui: "unat i < 2 ^ 32" using unsigned_less [of i] by simp
      have notin: "unat i \<notin> bits_set m" using False by (simp add: test_iff)
      have "card (bits_set m) \<le> 2 ^ 32" using bound by (rule card_bits_bound)
      then have "unat (bm_items m) + 1 < 2 ^ 64" using cnt by simp
      then have "unat (bm_items m + 1) = unat (bm_items m) + 1"
        by (simp add: unat_add_lem [THEN iffD1])
      moreover have "card (insert (unat i) (bits_set m)) = card (bits_set m) + 1"
        using notin finite_bits_set by simp
      ultimately show ?thesis
        using f bound ui cnt by (simp add: bm_inv_def)
    next
      case False
      then show ?thesis using assms by (simp add: add_nomem)
    qed
  qed
qed

lemma bm_inv_remove:
  assumes "bm_inv m"
  shows "bm_inv (snd (bitmap_remove m i))"
proof -
  from assms have wf: "bm_wf m" and bound: "\<forall>k\<in>bits_set m. k < 2 ^ 32"
    and cnt: "unat (bm_items m) = card (bits_set m)"
    by (simp_all add: bm_inv_def)
  show ?thesis
  proof (cases "bitmap_test m i")
    case False
    then show ?thesis using assms by (simp add: remove_absent)
  next
    case True
    note f = remove_present [OF wf True]
    have isin: "unat i \<in> bits_set m" using True by (simp add: test_iff)
    then have pos: "0 < card (bits_set m)"
      using finite_bits_set by (auto simp: card_gt_0_iff)
    then have "bm_items m \<noteq> 0" using cnt by auto
    then have "unat (bm_items m - 1) = unat (bm_items m) - 1"
      by (rule unat_minus_one)
    moreover have "card (bits_set m - {unat i}) = card (bits_set m) - 1"
      using isin finite_bits_set by simp
    ultimately show ?thesis
      using f bound cnt by (simp add: bm_inv_def)
  qed
qed

lemma bm_inv_empty: "bm_inv bitmap_empty"
  by (simp add: bm_inv_def bm_wf_def bitmap_empty_def bits_set_def)

lemma bm_inv_run: "bm_inv m \<Longrightarrow> bm_inv (bitmap_run m ops)"
proof (induction ops arbitrary: m)
  case Nil
  then show ?case by simp
next
  case (Cons x xs)
  then show ?case by (cases x) (simp_all add: bm_inv_add bm_inv_remove)
qed

section \<open>The stream callbacks and their buffers\<close>

lemma playback_queues_back:
  "queued (playback_stream_process im (Some buf) sent) =
     (let size = min (chunk_size (bd_chunk (b_datas0 buf)))
                  (bd_maxsize (b_datas0 buf)
                     - min (chunk_offset (bd_chunk (b_datas0 buf))) (bd_maxsize (b_datas0 buf)))
      in if audio_socket_fd im \<noteq> - 1 \<and>
            (size \<ge> 10239 \<or> (size \<noteq> 0 \<and> bd_data (b_datas0 buf) = None))
         then [] else [buf])"
  by (simp add: playback_stream_process_def Let_def)

lemma playback_null_data_no_bytes:
  assumes "bd_data (b_datas0 buf) = None" and "chunk_size (bd_chunk (b_datas0 buf)) = 0"
    and "audio_socket_fd im \<noteq> - 1"
  shows "playback_stream_process im (Some buf) 1
         = [Send [AUDIO_OUTPUT_PREFIX], LogInfo ''Sent bytes of audio data'',
            StreamQueueBuffer buf]"
  using assms by (simp add: playback_stream_process_def Let_def)

text \<open>
  Claim C1. Every invocation of the playback callback that dequeues a buffer queues it back
  before returning, also when the cycle is dropped for its size. The code returns from the
  size check without queueing: with a connected socket and a chunk of 10239 bytes the only
  action is the error log, and no buffer goes back to the stream.
\<close>

theorem playback_too_big_not_queued:
  "playback_stream_process (impl_init\<lparr>audio_socket_fd := 3\<rparr>) (Some big_buffer) 10240
     = [LogError ''buffer too big''] \<and>
   queued (playback_stream_process (impl_init\<lparr>audio_socket_fd := 3\<rparr>) (Some big_buffer) 10240) = []"
  by (simp add: playback_stream_process_def big_buffer_def impl_init_def Let_def)

text \<open>
  Claim C10. When the dequeued buffer's data pointer is NULL, the capture callback returns
  with the ring buffer and the buffer untouched and with no action at all: nothing is
  written and the buffer is not queued back.
\<close>

theorem capture_null_data:
  assumes "bd_data (b_datas0 b) = None"
  shows "source_playback_process r (Some b) = Some (r, Some b, [])"
  using assms by (simp add: source_playback_process_def)

theorem capture_null_data_witness:
  "bd_data (b_datas0 null_buffer) = None \<and>
   source_playback_process ring_init (Some null_buffer) = Some (ring_init, Some null_buffer, [])"
proof -
  have h: "bd_data (b_datas0 null_buffer) = None" by (simp add: null_buffer_def)
  show ?thesis using h capture_null_data [OF h, of ring_init] by simp
qed

section \<open>Sink reconciliation: the check and the events\<close>

lemma check_sinks_destroy:
  assumes "bm_items (sink_ids im) > bm_items (fallback_sink_ids im)"
  shows "sink (fst (check_sinks im c)) = None"
    and "destroyed (snd (check_sinks im c)) = (case sink im of None \<Rightarrow> [] | Some p \<Rightarrow> [p])"
    and "creations (snd (check_sinks im c)) = 0"
    and "scheduled (fst (check_sinks im c)) = scheduled im"
  using assms
  by (simp_all add: check_sinks_def sink_destroy_def sink_proxy_destroy_def creations_def
        split: option.splits)

lemma check_sinks_create:
  assumes "\<not> bm_items (sink_ids im) > bm_items (fallback_sink_ids im)"
  shows "destroyed (snd (check_sinks im c)) = []"
    and "creations (snd (check_sinks im c)) = (if sink im = None then 1 else 0)"
    and "sink (fst (check_sinks im c)) =
           (case sink im of Some p \<Rightarrow> Some p
            | None \<Rightarrow> (case c of Inl e \<Rightarrow> None | Inr p \<Rightarrow> Some p))"
    and "scheduled (fst (check_sinks im c)) = scheduled im"
  using assms
  by (simp_all add: check_sinks_def sink_create_def creations_def
        split: option.splits sum.splits)

text \<open>
  Claim C5. When the barrier of the last requested sequence number resolves, the machine
  is idle afterwards and the check has run: with more sinks than fallback sinks the
  existing fallback sink, if any, is destroyed and nothing is created; otherwise nothing
  is destroyed and an object is created exactly when no fallback sink exists, so there is
  never a second one. The counters are the cardinalities of the two sets.
\<close>

theorem core_done_reconciles:
  assumes "unat (bm_items (sink_ids im)) = bitmap_bits (sink_ids im)"
    and "unat (bm_items (fallback_sink_ids im)) = bitmap_bits (fallback_sink_ids im)"
    and "seq = check_seq im"
  shows "\<not> scheduled (fst (core_done im ident seq created)) \<and>
    (if bitmap_bits (sink_ids im) > bitmap_bits (fallback_sink_ids im)
     then destroyed (snd (core_done im ident seq created))
            = (case sink im of None \<Rightarrow> [] | Some p \<Rightarrow> [p]) \<and>
          creations (snd (core_done im ident seq created)) = 0 \<and>
          sink (fst (core_done im ident seq created)) = None
     else destroyed (snd (core_done im ident seq created)) = [] \<and>
          creations (snd (core_done im ident seq created)) = (if sink im = None then 1 else 0) \<and>
          sink (fst (core_done im ident seq created))
            = (case sink im of Some p \<Rightarrow> Some p
               | None \<Rightarrow> (case created of Inl e \<Rightarrow> None | Inr p \<Rightarrow> Some p)))"
proof -
  let ?im = "im\<lparr>scheduled := False\<rparr>"
  have cd: "core_done im ident seq created = check_sinks ?im created"
    using assms(3) by (simp add: core_done_def)
  have cmp: "(bitmap_bits (sink_ids im) > bitmap_bits (fallback_sink_ids im))
      = (bm_items (sink_ids ?im) > bm_items (fallback_sink_ids ?im))"
    using assms(1,2) by (simp add: word_less_nat_alt)
  show ?thesis
  proof (cases "bm_items (sink_ids ?im) > bm_items (fallback_sink_ids ?im)")
    case True
    show ?thesis
      using True check_sinks_destroy [OF True, of created] cmp by (simp add: cd)
  next
    case False
    show ?thesis
      using False check_sinks_create [OF False, of created] cmp by (simp add: cd)
  qed
qed

theorem core_done_reconciles_witness:
  "unat (bm_items (sink_ids impl_with_sink)) = bitmap_bits (sink_ids impl_with_sink) \<and>
   unat (bm_items (fallback_sink_ids impl_with_sink)) = bitmap_bits (fallback_sink_ids impl_with_sink) \<and>
   (4::int) = check_seq impl_with_sink \<and>
   \<not> scheduled (fst (core_done impl_with_sink 0 4 (Inr 9))) \<and>
   creations (snd (core_done impl_with_sink 0 4 (Inr 9))) = 0 \<and>
   sink (fst (core_done impl_with_sink 0 4 (Inr 9))) = Some 7"
proof -
  have h1: "unat (bm_items (sink_ids impl_with_sink)) = bitmap_bits (sink_ids impl_with_sink)"
    by (simp add: impl_with_sink_def impl_init_def bitmap_empty_def bitmap_bits_def)
  have h2: "unat (bm_items (fallback_sink_ids impl_with_sink)) = bitmap_bits (fallback_sink_ids impl_with_sink)"
    by (simp add: impl_with_sink_def impl_init_def bitmap_empty_def bitmap_bits_def)
  have h3: "(4::int) = check_seq impl_with_sink"
    by (simp add: impl_with_sink_def)
  have b: "bitmap_bits (sink_ids impl_with_sink) = 0" "bitmap_bits (fallback_sink_ids impl_with_sink) = 0"
    "sink impl_with_sink = Some 7"
    by (simp_all add: impl_with_sink_def impl_init_def bitmap_empty_def bitmap_bits_def)
  show ?thesis
    using h1 h2 h3 core_done_reconciles [OF h1 h2 h3, of 0 "Inr 9"] b by simp
qed


lemma add_id_set:
  assumes wf: "bm_wf m"
  shows "bits_set (fst (snd (add_id m i a))) =
     (if i \<noteq> SPA_ID_INVALID \<and> (a \<or> unat (drop_bit 3 i) < bm_size m)
      then insert (unat i) (bits_set m) else bits_set m)"
proof (cases "bitmap_test m i")
  case True
  then have "unat i \<in> bits_set m" by (simp add: test_iff)
  then have "insert (unat i) (bits_set m) = bits_set m" by auto
  then show ?thesis using True by (simp add: add_id_def add_present)
next
  case False
  show ?thesis
  proof (cases "a \<or> unat (drop_bit 3 i) < bm_size m")
    case True
    from add_fresh(2) [OF wf False True] show ?thesis using True
      by (simp add: add_id_def split_beta)
  next
    case False
    then show ?thesis by (simp add: add_id_def add_nomem)
  qed
qed

lemma add_id_unchanged:
  assumes "\<not> (i \<noteq> SPA_ID_INVALID \<and> (a \<or> unat (drop_bit 3 i) < bm_size m))"
  shows "fst (snd (add_id m i a)) = m"
proof (cases "i = SPA_ID_INVALID")
  case True
  then show ?thesis by (simp add: add_id_def)
next
  case False
  with assms have "bm_size m \<le> unat (drop_bit 3 i)" "\<not> a" by auto
  then show ?thesis using False by (simp add: add_id_def add_nomem)
qed

lemma add_id_barriers: "barriers (snd (snd (add_id m i a))) = 0"
  by (simp add: add_id_def barriers_def split_beta)

lemma reschedule_fields [simp]:
  "sink_ids (fst (reschedule_check im r)) = sink_ids im"
  "fallback_sink_ids (fst (reschedule_check im r)) = fallback_sink_ids im"
  "scheduled (fst (reschedule_check im r)) = scheduled im"
  "barriers (snd (reschedule_check im r)) = (if scheduled im then 1 else 0)"
  by (simp_all add: reschedule_check_def barriers_def)

lemma schedule_fields [simp]:
  "sink_ids (fst (schedule_check im r)) = sink_ids im"
  "fallback_sink_ids (fst (schedule_check im r)) = fallback_sink_ids im"
  "scheduled (fst (schedule_check im r)) = True"
  "barriers (snd (schedule_check im r)) = (if scheduled im then 0 else 1)"
  by (simp_all add: schedule_check_def barriers_def)

lemma barriers_append [simp]: "barriers (xs @ ys) = barriers xs + barriers ys"
  by (simp add: barriers_def)

lemma global_sink_type:
  assumes "sink_type type props"
  shows "registry_event_global im ident type props alloc_ok ret1 ret2 =
     (let (im1, a1) = reschedule_check im ret1;
          (res, s', a2) = add_id (sink_ids im1) ident alloc_ok;
          (im3, a3) = schedule_check (im1\<lparr>sink_ids := s'\<rparr>) ret2
      in (im3, a1 @ a2 @ a3))"
  using assms
  by (auto simp add: registry_event_global_def sink_type_def spa_streq_def Let_def
        split: option.splits prod.splits)

text \<open>
  Claim C6, amended. An appeared event for a sink-type object leaves the machine with a
  check scheduled and requests exactly one barrier, whether or not the id is new; the id
  is added to the sink set, which afterwards is the set before with the id inserted and
  nothing else changed, unless the id is \<open>SPA_ID_INVALID\<close> or the array had to grow and
  the allocation failed, and then the set is unchanged.
\<close>

theorem appeared_always_requests_barrier:
  assumes "sink_type type props" and "bm_wf (sink_ids im)"
  shows "scheduled (fst (registry_event_global im ident type props alloc_ok ret1 ret2)) \<and>
     barriers (snd (registry_event_global im ident type props alloc_ok ret1 ret2)) = 1 \<and>
     (if ident \<noteq> SPA_ID_INVALID \<and> (alloc_ok \<or> unat (drop_bit 3 ident) < bm_size (sink_ids im))
      then bitmap_test (sink_ids (fst (registry_event_global im ident type props alloc_ok ret1 ret2))) ident \<and>
           bits_set (sink_ids (fst (registry_event_global im ident type props alloc_ok ret1 ret2)))
             = insert (unat ident) (bits_set (sink_ids im))
      else sink_ids (fst (registry_event_global im ident type props alloc_ok ret1 ret2)) = sink_ids im)"
proof -
  obtain im1 a1 where r: "reschedule_check im ret1 = (im1, a1)" by (cases "reschedule_check im ret1")
  obtain res s' a2 where a: "add_id (sink_ids im1) ident alloc_ok = (res, s', a2)"
    by (cases "add_id (sink_ids im1) ident alloc_ok") auto
  obtain im3 a3 where s: "schedule_check (im1\<lparr>sink_ids := s'\<rparr>) ret2 = (im3, a3)"
    by (cases "schedule_check (im1\<lparr>sink_ids := s'\<rparr>) ret2")
  have g: "registry_event_global im ident type props alloc_ok ret1 ret2 = (im3, a1 @ a2 @ a3)"
    using global_sink_type [OF assms(1)] r a s by simp
  have ids1: "sink_ids im1 = sink_ids im" and sch1: "scheduled im1 = scheduled im"
    and b1: "barriers a1 = (if scheduled im then 1 else 0)"
    using reschedule_fields [of im ret1] r by simp_all
  have s'_eq: "s' = fst (snd (add_id (sink_ids im) ident alloc_ok))"
    and b2: "barriers a2 = 0"
    using a ids1 add_id_barriers [of "sink_ids im" ident alloc_ok] by simp_all
  have ids3: "sink_ids im3 = s'" and sch3: "scheduled im3"
    and b3: "barriers a3 = (if scheduled im then 0 else 1)"
    using schedule_fields [of "im1\<lparr>sink_ids := s'\<rparr>" ret2] s sch1 by simp_all
  have set: "bits_set s' =
     (if ident \<noteq> SPA_ID_INVALID \<and> (alloc_ok \<or> unat (drop_bit 3 ident) < bm_size (sink_ids im))
      then insert (unat ident) (bits_set (sink_ids im)) else bits_set (sink_ids im))"
    using add_id_set [OF assms(2)] s'_eq by simp
  show ?thesis
  proof (cases "ident \<noteq> SPA_ID_INVALID \<and> (alloc_ok \<or> unat (drop_bit 3 ident) < bm_size (sink_ids im))")
    case True
    then have eq: "bits_set s' = insert (unat ident) (bits_set (sink_ids im))"
      using set by simp
    then have "bitmap_test s' ident" by (simp add: test_iff)
    then show ?thesis using True eq sch3 b1 b2 b3 ids3 by (simp add: g)
  next
    case False
    then have "s' = sink_ids im" using add_id_unchanged s'_eq by simp
    then show ?thesis using False sch3 b1 b2 b3 ids3 by (auto simp add: g)
  qed
qed

text \<open>
  Claim C6 as stated fails: an appeared event for the id 5, already in the sink set of an
  idle machine, requests a barrier and schedules the check.
\<close>

theorem appeared_known_id_requests_barrier:
  "bitmap_test (sink_ids impl_seen5) 5 \<and> \<not> scheduled impl_seen5 \<and>
   snd (registry_event_global impl_seen5 5 node_type sink_props True 3 4) = [CoreSync 2] \<and>
   scheduled (fst (registry_event_global impl_seen5 5 node_type sink_props True 3 4))"
  by code_simp

theorem appeared_always_requests_barrier_witness:
  "sink_type node_type sink_props \<and> bm_wf (sink_ids impl_seen5) \<and>
   scheduled (fst (registry_event_global impl_seen5 6 node_type sink_props True 3 4)) \<and>
   barriers (snd (registry_event_global impl_seen5 6 node_type sink_props True 3 4)) = 1 \<and>
   bitmap_test (sink_ids (fst (registry_event_global impl_seen5 6 node_type sink_props True 3 4))) 6 \<and>
   bits_set (sink_ids (fst (registry_event_global impl_seen5 6 node_type sink_props True 3 4)))
     = insert (unat (6::u32)) (bits_set (sink_ids impl_seen5))"
proof -
  have h1: "sink_type node_type sink_props" by code_simp
  have h2: "bm_wf (sink_ids impl_seen5)" by code_simp
  have h3: "(6::u32) \<noteq> SPA_ID_INVALID" by (simp add: SPA_ID_INVALID_def)
  show ?thesis
    using h1 h2 h3 appeared_always_requests_barrier [OF h1 h2, of 6 True 3 4] by simp
qed













section \<open>Bitmaps: sequences of operations\<close>

text \<open>
  Claim C9. After any sequence of \<open>bitmap_add\<close> and \<open>bitmap_remove\<close> from the empty bitmap
  the counter \<open>items\<close> is the number of set bits. On such a bitmap, adding a set bit
  returns 1 and changes nothing, adding a fresh bit returns 0 and counts one more, an add
  that cannot allocate returns the error and changes nothing, removing a set bit returns
  true and counts one less, and removing an absent bit returns false and changes nothing.
\<close>

theorem bitmap_items_counts_bits:
  assumes "m = bitmap_run bitmap_empty ops"
  shows "unat (bm_items m) = bitmap_bits m \<and>
     (bitmap_test m i \<longrightarrow> bitmap_add m i a = (1, m)) \<and>
     (\<not> bitmap_test m i \<and> (a \<or> unat (drop_bit 3 i) < bm_size m) \<longrightarrow>
        fst (bitmap_add m i a) = 0 \<and>
        bm_items (snd (bitmap_add m i a)) = bm_items m + 1 \<and>
        bitmap_bits (snd (bitmap_add m i a)) = bitmap_bits m + 1) \<and>
     (\<not> bitmap_test m i \<and> \<not> (a \<or> unat (drop_bit 3 i) < bm_size m) \<longrightarrow>
        bitmap_add m i a = (- ENOMEM, m)) \<and>
     (bitmap_test m i \<longrightarrow>
        fst (bitmap_remove m i) \<and>
        bm_items (snd (bitmap_remove m i)) = bm_items m - 1 \<and>
        bitmap_bits (snd (bitmap_remove m i)) + 1 = bitmap_bits m) \<and>
     (\<not> bitmap_test m i \<longrightarrow> bitmap_remove m i = (False, m))"
proof -
  have inv: "bm_inv m"
    using assms bm_inv_empty by (simp add: bm_inv_run)
  then have wf: "bm_wf m" by (simp add: bm_inv_def)
  have cnt: "unat (bm_items m) = bitmap_bits m"
    using inv by (simp add: bm_inv_def bitmap_bits_card)
  have present_add: "bitmap_add m i a = (1, m)" if "bitmap_test m i"
    using that by (rule add_present)
  have fresh_add: "fst (bitmap_add m i a) = 0 \<and>
        bm_items (snd (bitmap_add m i a)) = bm_items m + 1 \<and>
        bitmap_bits (snd (bitmap_add m i a)) = bitmap_bits m + 1"
    if f: "\<not> bitmap_test m i" and ok: "a \<or> unat (drop_bit 3 i) < bm_size m"
  proof -
    have "unat i \<notin> bits_set m" using f by (simp add: test_iff)
    then have "card (insert (unat i) (bits_set m)) = card (bits_set m) + 1"
      using finite_bits_set by simp
    then show ?thesis
      using add_fresh [OF wf f ok] by (simp add: bitmap_bits_card)
  qed
  have nomem_add: "bitmap_add m i a = (- ENOMEM, m)"
    if "\<not> (a \<or> unat (drop_bit 3 i) < bm_size m)"
    using that by (simp add: add_nomem)
  have present_remove: "fst (bitmap_remove m i) \<and>
        bm_items (snd (bitmap_remove m i)) = bm_items m - 1 \<and>
        bitmap_bits (snd (bitmap_remove m i)) + 1 = bitmap_bits m"
    if p: "bitmap_test m i"
  proof -
    have isin: "unat i \<in> bits_set m" using p by (simp add: test_iff)
    then have "Suc (card (bits_set m - {unat i})) = card (bits_set m)"
      using finite_bits_set [of m] by (rule card_Suc_Diff1 [rotated])
    then have "card (bits_set m - {unat i}) + 1 = card (bits_set m)"
      by simp
    then show ?thesis
      using remove_present [OF wf p] by (simp add: bitmap_bits_card)
  qed
  have absent_remove: "bitmap_remove m i = (False, m)" if "\<not> bitmap_test m i"
    using that by (rule remove_absent)
  show ?thesis
    using cnt present_add fresh_add nomem_add present_remove absent_remove by blast
qed

theorem bitmap_items_counts_bits_witness:
  "bitmap_test (bitmap_run bitmap_empty ops_5_9) 9 \<and>
   \<not> bitmap_test (bitmap_run bitmap_empty ops_5_9) 5 \<and>
   \<not> bitmap_test (bitmap_run bitmap_empty ops_5_9) 1000 \<and>
   \<not> (False \<or> unat (drop_bit 3 (1000::u32)) < bm_size (bitmap_run bitmap_empty ops_5_9)) \<and>
   unat (bm_items (bitmap_run bitmap_empty ops_5_9))
     = bitmap_bits (bitmap_run bitmap_empty ops_5_9) \<and>
   fst (bitmap_add (bitmap_run bitmap_empty ops_5_9) 9 True) = 1 \<and>
   fst (bitmap_add (bitmap_run bitmap_empty ops_5_9) 5 True) = 0 \<and>
   bitmap_bits (snd (bitmap_add (bitmap_run bitmap_empty ops_5_9) 5 True))
     = bitmap_bits (bitmap_run bitmap_empty ops_5_9) + 1 \<and>
   fst (bitmap_add (bitmap_run bitmap_empty ops_5_9) 1000 False) = - ENOMEM \<and>
   fst (bitmap_remove (bitmap_run bitmap_empty ops_5_9) 9) \<and>
   bitmap_bits (snd (bitmap_remove (bitmap_run bitmap_empty ops_5_9) 9)) + 1
     = bitmap_bits (bitmap_run bitmap_empty ops_5_9) \<and>
   \<not> fst (bitmap_remove (bitmap_run bitmap_empty ops_5_9) 5)"
proof -
  let ?m = "bitmap_run bitmap_empty ops_5_9"
  have h0: "?m = bitmap_run bitmap_empty ops_5_9" by (rule refl)
  have h1: "bitmap_test ?m 9" by code_simp
  have h2: "\<not> bitmap_test ?m 5" by code_simp
  have h3: "\<not> (False \<or> unat (drop_bit 3 (1000::u32)) < bm_size ?m)" by code_simp
  have h4: "True \<or> unat (drop_bit 3 (5::u32)) < bm_size ?m" by simp
  have h5: "\<not> bitmap_test ?m 1000" by code_simp
  note t9 = bitmap_items_counts_bits [OF h0, of 9 True]
  note t5 = bitmap_items_counts_bits [OF h0, of 5 True]
  note t1000 = bitmap_items_counts_bits [OF h0, of 1000 False]
  have c0: "unat (bm_items ?m) = bitmap_bits ?m" using t9 by (rule conjunct1)
  have c1: "bitmap_add ?m 9 True = (1, ?m)" using t9 h1 by blast
  have c2: "fst (bitmap_add ?m 5 True) = 0 \<and>
     bitmap_bits (snd (bitmap_add ?m 5 True)) = bitmap_bits ?m + 1"
    using t5 h2 h4 by blast
  have c3: "bitmap_add ?m 1000 False = (- ENOMEM, ?m)" using t1000 h3 h5 by blast
  have c4: "fst (bitmap_remove ?m 9) \<and> bitmap_bits (snd (bitmap_remove ?m 9)) + 1 = bitmap_bits ?m"
    using t9 h1 by blast
  have c5: "bitmap_remove ?m 5 = (False, ?m)" using t5 h2 by blast
  show ?thesis
    using h1 h2 h3 h5 c0 c2 c4 by (simp add: c1 c3 c5)
qed

section \<open>The ring buffer\<close>

lemma receive_input_frame:
  "socket_receive_iteration r (1 + int (length payload)) (0x02 # payload @ rest)
     = (copy_loop r payload, [CondSignal])"
  by (simp add: socket_receive_iteration_def nat_add_distrib)

lemma receive_other_tag:
  "tag \<noteq> 0x02 \<Longrightarrow> fst (socket_receive_iteration r n (tag # rest)) = r"
  by (simp add: socket_receive_iteration_def)

lemma BUFFER_SIZE_gt1: "1 < BUFFER_SIZE"
  by (simp add: BUFFER_SIZE_def)

lemma wrap_add: "a < C \<Longrightarrow> k \<le> C \<Longrightarrow> (a + k) mod C = (if a + k < C then a + k else a + k - C)"
  for a k C :: nat
  by (simp add: mod_if)

lemma count_alt:
  "s < C \<Longrightarrow> e < C \<Longrightarrow> (e + C - s) mod C = (if s \<le> e then e - s else e + C - s)"
  for s e C :: nat
  by (auto simp add: mod_if)

lemma ring_count_alt:
  assumes "ring_inv r"
  shows "ring_count r =
    (if audio_buffer_start r \<le> audio_buffer_end r
     then audio_buffer_end r - audio_buffer_start r
     else audio_buffer_end r + BUFFER_SIZE - audio_buffer_start r)"
  using assms by (simp add: ring_count_def ring_inv_def count_alt)

lemma ring_count_lt: "ring_inv r \<Longrightarrow> ring_count r < BUFFER_SIZE"
  by (simp add: ring_count_def ring_inv_def)

lemma length_ring_contents [simp]: "length (ring_contents r) = ring_count r"
  by (simp add: ring_contents_def)

lemma ring_contents_nth:
  "k < ring_count r \<Longrightarrow>
   ring_contents r ! k = audio_buffer r ! ((audio_buffer_start r + k) mod BUFFER_SIZE)"
  by (simp add: ring_contents_def)

lemma push_byte_inv: "ring_inv r \<Longrightarrow> ring_inv (push_byte r b)"
  using BUFFER_SIZE_gt1 by (simp add: ring_inv_def push_byte_def Let_def)

lemma push_byte_fields:
  "audio_buffer (push_byte r b) = (audio_buffer r)[audio_buffer_end r := b]"
  "audio_buffer_end (push_byte r b) = (audio_buffer_end r + 1) mod BUFFER_SIZE"
  "audio_buffer_start (push_byte r b) =
     (if (audio_buffer_end r + 1) mod BUFFER_SIZE = audio_buffer_start r
      then (audio_buffer_start r + 1) mod BUFFER_SIZE else audio_buffer_start r)"
  by (simp_all add: push_byte_def Let_def)

lemma succ_mod:
  "a < C \<Longrightarrow> (a + 1) mod C = (if a + 1 < C then a + 1 else 0)" for a C :: nat
  by (simp add: mod_if)

lemma full_iff_arith:
  fixes s e C :: nat
  assumes "s < C" "e < C" "1 < C"
  shows "((if e + 1 < C then e + 1 else 0) = s)
       = ((if s \<le> e then e - s else e + C - s) = C - 1)"
  using assms by (cases "e + 1 < C"; cases "s \<le> e") auto

lemma full_iff:
  assumes "ring_inv r"
  shows "((audio_buffer_end r + 1) mod BUFFER_SIZE = audio_buffer_start r)
         = (ring_count r = BUFFER_SIZE - 1)"
proof -
  from assms have s: "audio_buffer_start r < BUFFER_SIZE" and e: "audio_buffer_end r < BUFFER_SIZE"
    by (simp_all add: ring_inv_def)
  show ?thesis
    unfolding ring_count_alt [OF assms] succ_mod [OF e]
    using s e BUFFER_SIZE_gt1 by (rule full_iff_arith)
qed

lemma push_count_arith:
  fixes s e C :: nat
  assumes "s < C" "e < C" "1 < C"
  defines "e' \<equiv> (if e + 1 < C then e + 1 else 0)"
  defines "s' \<equiv> (if e' = s then (if s + 1 < C then s + 1 else 0) else s)"
  shows "(if s' \<le> e' then e' - s' else e' + C - s')
       = (if (if s \<le> e then e - s else e + C - s) = C - 1 then C - 1
          else (if s \<le> e then e - s else e + C - s) + 1)"
  using assms(1-3) unfolding e'_def s'_def
  by (cases "e + 1 < C"; cases "s \<le> e"; cases "s + 1 < C") auto

lemma push_byte_count:
  assumes "ring_inv r"
  shows "ring_count (push_byte r b) =
     (if ring_count r = BUFFER_SIZE - 1 then BUFFER_SIZE - 1 else ring_count r + 1)"
proof -
  from assms have s: "audio_buffer_start r < BUFFER_SIZE" and e: "audio_buffer_end r < BUFFER_SIZE"
    by (simp_all add: ring_inv_def)
  have inv': "ring_inv (push_byte r b)" using assms by (rule push_byte_inv)
  show ?thesis
    unfolding ring_count_alt [OF inv'] ring_count_alt [OF assms] push_byte_fields
      succ_mod [OF e] succ_mod [OF s]
    using s e BUFFER_SIZE_gt1 by (rule push_count_arith)
qed

lemma idx_arith:
  fixes s e C k :: nat
  assumes "s < C" "e < C"
  defines "n \<equiv> (if s \<le> e then e - s else e + C - s)"
  shows "(s + n) mod C = e" and "k < n \<Longrightarrow> (s + k) mod C \<noteq> e"
proof -
  show "(s + n) mod C = e"
    using assms(1,2) unfolding n_def by (cases "s \<le> e") (auto simp add: mod_if)
  show "k < n \<Longrightarrow> (s + k) mod C \<noteq> e"
    using assms(1,2) unfolding n_def by (cases "s \<le> e"; cases "s + k < C") (auto simp add: mod_if)
qed

lemma idx_end:
  assumes "ring_inv r"
  shows "(audio_buffer_start r + ring_count r) mod BUFFER_SIZE = audio_buffer_end r"
proof -
  from assms have s: "audio_buffer_start r < BUFFER_SIZE" and e: "audio_buffer_end r < BUFFER_SIZE"
    by (simp_all add: ring_inv_def)
  show ?thesis unfolding ring_count_alt [OF assms] using s e by (rule idx_arith(1))
qed

lemma idx_ne:
  assumes "ring_inv r" and "k < ring_count r"
  shows "(audio_buffer_start r + k) mod BUFFER_SIZE \<noteq> audio_buffer_end r"
proof -
  from assms have s: "audio_buffer_start r < BUFFER_SIZE" and e: "audio_buffer_end r < BUFFER_SIZE"
    by (simp_all add: ring_inv_def)
  show ?thesis
    using idx_arith(2) [OF s e] assms(2) unfolding ring_count_alt [OF assms(1)] .
qed

lemma pushed_nth:
  assumes "ring_inv r" and "j \<le> ring_count r"
  shows "(audio_buffer r)[audio_buffer_end r := b] ! ((audio_buffer_start r + j) mod BUFFER_SIZE)
         = (ring_contents r @ [b]) ! j"
proof (cases "j < ring_count r")
  case True
  then show ?thesis
    using idx_ne [OF assms(1) True] by (simp add: nth_append ring_contents_nth)
next
  case False
  then have j: "j = ring_count r" using assms(2) by simp
  have "audio_buffer_end r < length (audio_buffer r)" using assms(1) by (simp add: ring_inv_def)
  then show ?thesis
    by (simp add: j idx_end [OF assms(1)] nth_append)
qed

lemma push_byte_start:
  assumes "ring_inv r"
  shows "audio_buffer_start (push_byte r b) =
    (audio_buffer_start r + (if ring_count r = BUFFER_SIZE - 1 then 1 else 0)) mod BUFFER_SIZE"
proof -
  from assms have s: "audio_buffer_start r < BUFFER_SIZE" by (simp add: ring_inv_def)
  show ?thesis
  proof (cases "ring_count r = BUFFER_SIZE - 1")
    case True
    then have "(audio_buffer_end r + 1) mod BUFFER_SIZE = audio_buffer_start r"
      by (simp only: full_iff [OF assms])
    then have "audio_buffer_start (push_byte r b) = (audio_buffer_start r + 1) mod BUFFER_SIZE"
      by (simp only: push_byte_fields(3) if_True refl)
    then show ?thesis using True by simp
  next
    case False
    then have "(audio_buffer_end r + 1) mod BUFFER_SIZE \<noteq> audio_buffer_start r"
      by (simp only: full_iff [OF assms] not_False_eq_True)
    then have "audio_buffer_start (push_byte r b) = audio_buffer_start r"
      by (simp only: push_byte_fields(3) if_False refl)
    then show ?thesis using False s by simp
  qed
qed

lemma push_byte_contents:
  assumes "ring_inv r"
  shows "ring_contents (push_byte r b) = lastn (BUFFER_SIZE - 1) (ring_contents r @ [b])"
proof -
  define d :: nat where "d = (if ring_count r = BUFFER_SIZE - 1 then 1 else 0)"
  have lt: "ring_count r < BUFFER_SIZE" using assms by (rule ring_count_lt)
  have cnt': "ring_count (push_byte r b) = ring_count r + 1 - d"
    using lt by (simp add: push_byte_count [OF assms] d_def)
  have dd: "length (ring_contents r @ [b]) - (BUFFER_SIZE - 1) = d"
    using lt by (auto simp add: d_def)
  have rhs: "lastn (BUFFER_SIZE - 1) (ring_contents r @ [b]) = drop d (ring_contents r @ [b])"
    by (simp only: lastn_def dd)
  have st: "audio_buffer_start (push_byte r b) = (audio_buffer_start r + d) mod BUFFER_SIZE"
    by (simp add: push_byte_start [OF assms] d_def)
  show ?thesis
  proof (rule nth_equalityI)
    show "length (ring_contents (push_byte r b))
          = length (lastn (BUFFER_SIZE - 1) (ring_contents r @ [b]))"
      unfolding rhs by (simp add: cnt')
  next
    fix k
    assume "k < length (ring_contents (push_byte r b))"
    then have k: "k < ring_count r + 1 - d" by (simp add: cnt')
    then have le: "d + k \<le> ring_count r" by simp
    have "ring_contents (push_byte r b) ! k
          = (audio_buffer r)[audio_buffer_end r := b]
              ! (((audio_buffer_start r + d) mod BUFFER_SIZE + k) mod BUFFER_SIZE)"
      using k by (simp add: ring_contents_nth cnt' st push_byte_fields(1))
    also have "((audio_buffer_start r + d) mod BUFFER_SIZE + k) mod BUFFER_SIZE
          = (audio_buffer_start r + (d + k)) mod BUFFER_SIZE"
      by (simp add: mod_add_left_eq add.assoc)
    also have "(audio_buffer r)[audio_buffer_end r := b]
              ! ((audio_buffer_start r + (d + k)) mod BUFFER_SIZE) = (ring_contents r @ [b]) ! (d + k)"
      using assms le by (rule pushed_nth)
    also have "\<dots> = drop d (ring_contents r @ [b]) ! k"
    proof -
      have "d \<le> length (ring_contents r @ [b])" using le by simp
      then show ?thesis by (rule nth_drop [symmetric])
    qed
    finally show "ring_contents (push_byte r b) ! k
          = lastn (BUFFER_SIZE - 1) (ring_contents r @ [b]) ! k"
      by (simp only: rhs)
  qed
qed

lemma lastn_lastn_append:
  "lastn n (lastn n xs @ ys) = lastn n (xs @ ys)"
proof (cases "length xs \<le> n")
  case True
  then show ?thesis by (simp add: lastn_def)
next
  case False
  then have "length xs + length ys - n = (length xs - n) + length ys" by simp
  moreover have "length xs - (length xs - n) = n" using False by simp
  ultimately show ?thesis
    by (simp add: lastn_def add.commute)
qed

lemma copy_loop_inv: "ring_inv r \<Longrightarrow> ring_inv (copy_loop r bs)"
  by (induction bs arbitrary: r) (simp_all add: push_byte_inv)

lemma copy_loop_contents:
  "ring_inv r \<Longrightarrow>
   ring_contents (copy_loop r bs) = lastn (BUFFER_SIZE - 1) (ring_contents r @ bs)"
proof (induction bs arbitrary: r)
  case Nil
  then show ?case
    using ring_count_lt [of r] by (simp add: lastn_def)
next
  case (Cons b bs)
  have "ring_contents (copy_loop (push_byte r b) bs)
        = lastn (BUFFER_SIZE - 1) (ring_contents (push_byte r b) @ bs)"
    using Cons.prems by (intro Cons.IH push_byte_inv)
  also have "\<dots> = lastn (BUFFER_SIZE - 1) (lastn (BUFFER_SIZE - 1) (ring_contents r @ [b]) @ bs)"
    by (simp only: push_byte_contents [OF Cons.prems])
  also have "\<dots> = lastn (BUFFER_SIZE - 1) ((ring_contents r @ [b]) @ bs)"
    by (rule lastn_lastn_append)
  finally show ?case by simp
qed

lemma copy_loop_append: "copy_loop r (xs @ ys) = copy_loop (copy_loop r xs) ys"
  by (induction xs arbitrary: r) simp_all

lemma ring_writes_concat: "ring_writes r ws = copy_loop r (concat ws)"
  by (induction ws arbitrary: r) (simp_all add: copy_loop_append)

lemma copy_loop_end:
  "ring_inv r \<Longrightarrow>
   audio_buffer_end (copy_loop r bs) = (audio_buffer_end r + length bs) mod BUFFER_SIZE"
proof (induction bs arbitrary: r)
  case Nil
  then show ?case by (simp add: ring_inv_def)
next
  case (Cons b bs)
  have "audio_buffer_end (copy_loop (push_byte r b) bs)
        = ((audio_buffer_end r + 1) mod BUFFER_SIZE + length bs) mod BUFFER_SIZE"
    using Cons.IH [OF push_byte_inv [OF Cons.prems]] by (simp add: push_byte_fields(2))
  also have "\<dots> = (audio_buffer_end r + 1 + length bs) mod BUFFER_SIZE"
    by (simp only: mod_add_left_eq)
  finally show ?case by (simp add: add.commute add.left_commute)
qed

lemma ring_count_le: "ring_inv r \<Longrightarrow> ring_count r \<le> BUFFER_SIZE - 1"
  using ring_count_lt [of r] by linarith

lemma copy_loop_start:
  "ring_inv r \<Longrightarrow>
   audio_buffer_start (copy_loop r bs) =
     (if ring_count r + length bs \<le> BUFFER_SIZE - 1 then audio_buffer_start r
      else (audio_buffer_end r + length bs + 1) mod BUFFER_SIZE)"
proof (induction bs arbitrary: r)
  case Nil
  then show ?case using ring_count_le [of r] by simp
next
  case (Cons b bs)
  note inv = Cons.prems
  have inv': "ring_inv (push_byte r b)" using inv by (rule push_byte_inv)
  have lt: "ring_count r < BUFFER_SIZE" using inv by (rule ring_count_lt)
  have ih: "audio_buffer_start (copy_loop (push_byte r b) bs) =
     (if ring_count (push_byte r b) + length bs \<le> BUFFER_SIZE - 1
      then audio_buffer_start (push_byte r b)
      else (audio_buffer_end (push_byte r b) + length bs + 1) mod BUFFER_SIZE)"
    using inv' by (rule Cons.IH)
  have e': "(audio_buffer_end (push_byte r b) + length bs + 1) mod BUFFER_SIZE
      = (audio_buffer_end r + length (b # bs) + 1) mod BUFFER_SIZE"
  proof -
    have "(audio_buffer_end (push_byte r b) + length bs + 1) mod BUFFER_SIZE
          = ((audio_buffer_end r + 1) mod BUFFER_SIZE + (length bs + 1)) mod BUFFER_SIZE"
      by (simp add: push_byte_fields(2) add.assoc)
    also have "\<dots> = (audio_buffer_end r + 1 + (length bs + 1)) mod BUFFER_SIZE"
      by (simp only: mod_add_left_eq)
    finally show ?thesis by (simp add: add.commute add.left_commute)
  qed
  show ?case
  proof (cases "ring_count r = BUFFER_SIZE - 1")
    case True
    then have full: "(audio_buffer_end r + 1) mod BUFFER_SIZE = audio_buffer_start r"
      by (simp only: full_iff [OF inv])
    have st: "audio_buffer_start (push_byte r b) = (audio_buffer_end r + 1 + 1) mod BUFFER_SIZE"
    proof -
      have "audio_buffer_start (push_byte r b) = (audio_buffer_start r + 1) mod BUFFER_SIZE"
        using True by (simp add: push_byte_start [OF inv])
      also have "\<dots> = ((audio_buffer_end r + 1) mod BUFFER_SIZE + 1) mod BUFFER_SIZE"
        by (simp only: full)
      also have "\<dots> = (audio_buffer_end r + 1 + 1) mod BUFFER_SIZE"
        by (simp only: mod_add_left_eq)
      finally show ?thesis .
    qed
    have cnt: "ring_count (push_byte r b) = BUFFER_SIZE - 1"
      using True by (simp add: push_byte_count [OF inv])
    have big: "\<not> ring_count r + length (b # bs) \<le> BUFFER_SIZE - 1" using True by simp
    show ?thesis
    proof (cases "bs = []")
      case True
      then show ?thesis using big st by simp
    next
      case False
      then have "\<not> ring_count (push_byte r b) + length bs \<le> BUFFER_SIZE - 1"
        using cnt by (cases bs) simp_all
      then show ?thesis using big ih e' by simp
    qed
  next
    case False
    then have cnt: "ring_count (push_byte r b) = ring_count r + 1"
      by (simp add: push_byte_count [OF inv])
    have st: "audio_buffer_start (push_byte r b) = audio_buffer_start r"
      using False inv by (simp add: push_byte_start [OF inv] ring_inv_def)
    show ?thesis
      using ih e' by (simp add: cnt st)
  qed
qed

lemma read_arith:
  fixes s e C m :: nat
  assumes "s < C" "e < C" "s \<noteq> e"
  defines "avail \<equiv> (if e > s then e - s else C - s)"
  defines "cnt \<equiv> (if s \<le> e then e - s else e + C - s)"
  defines "n \<equiv> min m avail"
  defines "s' \<equiv> (s + n) mod C"
  shows "s + n \<le> C" and "n \<le> cnt"
    and "(if s' \<le> e then e - s' else e + C - s') = cnt - n"
proof -
  show a: "s + n \<le> C" using assms(1-3) unfolding n_def avail_def by (cases "e > s") auto
  show "n \<le> cnt" using assms(1-3) unfolding n_def avail_def cnt_def by (cases "e > s") auto
  have s'_alt: "s' = (if s + n < C then s + n else 0)"
    using a unfolding s'_def by (auto simp add: mod_if)
  show "(if s' \<le> e then e - s' else e + C - s') = cnt - n"
    using assms(1-3) unfolding s'_alt unfolding n_def avail_def cnt_def
    by (cases "e > s"; cases "m \<le> C - s") (auto simp add: min_def)
qed

lemma ring_read_props:
  fixes m :: nat
  assumes inv: "ring_inv r" and ne: "audio_buffer_start r \<noteq> audio_buffer_end r"
  defines "n \<equiv> min m (if audio_buffer_end r > audio_buffer_start r
                        then audio_buffer_end r - audio_buffer_start r
                        else BUFFER_SIZE - audio_buffer_start r)"
  defines "r' \<equiv> r\<lparr>audio_buffer_start := (audio_buffer_start r + n) mod BUFFER_SIZE\<rparr>"
  shows "ring_read r m = Some (n, take n (drop (audio_buffer_start r) (audio_buffer r)), r')"
    and "audio_buffer_start r + n \<le> BUFFER_SIZE"
    and "n \<le> ring_count r"
    and "ring_count r' = ring_count r - n"
    and "ring_inv r'"
proof -
  from inv have s: "audio_buffer_start r < BUFFER_SIZE" and e: "audio_buffer_end r < BUFFER_SIZE"
    by (simp_all add: ring_inv_def)
  show "ring_read r m = Some (n, take n (drop (audio_buffer_start r) (audio_buffer r)), r')"
    using ne by (simp add: ring_read_def Let_def n_def r'_def)
  show "audio_buffer_start r + n \<le> BUFFER_SIZE"
    unfolding n_def using s e ne by (rule read_arith(1))
  show "n \<le> ring_count r"
    unfolding n_def ring_count_alt [OF inv] using s e ne by (rule read_arith(2))
  show inv': "ring_inv r'"
    using inv BUFFER_SIZE_gt1 by (simp add: r'_def ring_inv_def)
  have "ring_count r' =
      (if (audio_buffer_start r + n) mod BUFFER_SIZE \<le> audio_buffer_end r
       then audio_buffer_end r - (audio_buffer_start r + n) mod BUFFER_SIZE
       else audio_buffer_end r + BUFFER_SIZE - (audio_buffer_start r + n) mod BUFFER_SIZE)"
    using ring_count_alt [OF inv'] by (simp add: r'_def)
  also have "\<dots> = ring_count r - n"
    unfolding n_def ring_count_alt [OF inv] using s e ne by (rule read_arith(3))
  finally show "ring_count r' = ring_count r - n" .
qed

lemma ring_read_contents:
  assumes inv: "ring_inv r" and rd: "ring_read r m = Some (n, out, r')"
  shows "out = take n (ring_contents r)"
    and "ring_contents r' = drop n (ring_contents r)"
    and "ring_inv r'"
    and "n \<le> ring_count r"
proof -
  from rd have ne: "audio_buffer_start r \<noteq> audio_buffer_end r"
    by (auto simp add: ring_read_def split: if_splits)
  define n0 where "n0 = min m (if audio_buffer_end r > audio_buffer_start r
                        then audio_buffer_end r - audio_buffer_start r
                        else BUFFER_SIZE - audio_buffer_start r)"
  note p = ring_read_props [OF inv ne, where m = m, folded n0_def]
  have "Some (n, out, r') = Some (n0, take n0 (drop (audio_buffer_start r) (audio_buffer r)),
      r\<lparr>audio_buffer_start := (audio_buffer_start r + n0) mod BUFFER_SIZE\<rparr>)"
    using rd [symmetric] p(1) by (rule trans)
  then have n: "n = n0"
    and out0: "out = take n0 (drop (audio_buffer_start r) (audio_buffer r))"
    and r0: "r' = r\<lparr>audio_buffer_start := (audio_buffer_start r + n0) mod BUFFER_SIZE\<rparr>"
    by simp_all
  have out: "out = take n (drop (audio_buffer_start r) (audio_buffer r))"
    using out0 by (simp only: n)
  have r': "r' = r\<lparr>audio_buffer_start := (audio_buffer_start r + n) mod BUFFER_SIZE\<rparr>"
    using r0 by (simp only: n)
  have le: "audio_buffer_start r + n \<le> BUFFER_SIZE" using p(2) n by simp
  have nc: "n \<le> ring_count r" using p(3) n by simp
  have cnt': "ring_count r' = ring_count r - n" using p(4) n r' by simp
  show "ring_inv r'" using p(5) n r' by simp
  show "n \<le> ring_count r" by (rule nc)
  have len: "length (audio_buffer r) = BUFFER_SIZE" using inv by (simp add: ring_inv_def)
  show "out = take n (ring_contents r)"
  proof (rule nth_equalityI)
    show "length out = length (take n (ring_contents r))"
      using le nc len by (simp add: out)
  next
    fix k assume "k < length out"
    then have k: "k < n" by (simp add: out)
    then have "audio_buffer_start r + k < BUFFER_SIZE" using le by simp
    then show "out ! k = take n (ring_contents r) ! k"
      using k nc len by (simp add: out ring_contents_nth)
  qed
  show "ring_contents r' = drop n (ring_contents r)"
  proof (rule nth_equalityI)
    show "length (ring_contents r') = length (drop n (ring_contents r))"
      by (simp add: cnt')
  next
    fix k assume "k < length (ring_contents r')"
    then have k: "k < ring_count r - n" by (simp add: cnt')
    have "ring_contents r' ! k
        = audio_buffer r ! (((audio_buffer_start r + n) mod BUFFER_SIZE + k) mod BUFFER_SIZE)"
      using k by (simp add: ring_contents_nth cnt') (simp add: r')
    also have "((audio_buffer_start r + n) mod BUFFER_SIZE + k) mod BUFFER_SIZE
        = (audio_buffer_start r + (n + k)) mod BUFFER_SIZE"
      by (simp add: mod_add_left_eq add.assoc)
    also have "audio_buffer r ! ((audio_buffer_start r + (n + k)) mod BUFFER_SIZE)
        = ring_contents r ! (n + k)"
      using k by (simp add: ring_contents_nth)
    also have "\<dots> = drop n (ring_contents r) ! k"
      using nc by simp
    finally show "ring_contents r' ! k = drop n (ring_contents r) ! k" .
  qed
qed

lemma ring_reads_contents:
  "ring_inv r \<Longrightarrow> ring_reads r ms = Some (out, r') \<Longrightarrow>
   ring_contents r = out @ ring_contents r' \<and> ring_inv r'"
proof (induction ms arbitrary: r out)
  case Nil
  then show ?case by simp
next
  case (Cons m ms)
  from Cons.prems(2) obtain n o1 r1 rest where
    rd: "ring_read r m = Some (n, o1, r1)" and
    rs: "ring_reads r1 ms = Some (rest, r')" and
    out: "out = o1 @ rest"
    by (auto split: option.splits)
  note c = ring_read_contents [OF Cons.prems(1) rd]
  have "ring_contents r1 = rest @ ring_contents r' \<and> ring_inv r'"
    using c(3) rs by (rule Cons.IH)
  then show ?case
    using c(1,2) out append_take_drop_id [of n "ring_contents r"] by simp
qed

lemma empty_contents:
  assumes "audio_buffer_start r = audio_buffer_end r"
  shows "ring_contents r = []"
  using assms by (simp add: ring_contents_def ring_count_def)

lemma drained_output_contents:
  assumes "ring_inv r" and "drained_output r ms = Some out"
  shows "out = ring_contents r"
proof -
  from assms(2) obtain r' where rs: "ring_reads r ms = Some (out, r')"
    and e: "audio_buffer_start r' = audio_buffer_end r'"
    by (auto simp add: drained_output_def split: option.splits if_splits)
  from ring_reads_contents [OF assms(1) rs] empty_contents [OF e]
  show ?thesis by simp
qed

lemma ring_inv_init: "ring_inv ring_init"
  by (simp add: ring_inv_def ring_init_def BUFFER_SIZE_def)

lemma ring_init_fields [simp]:
  "audio_buffer_start ring_init = 0" "audio_buffer_end ring_init = 0"
  "ring_count ring_init = 0" "ring_contents ring_init = []"
  by (simp_all add: ring_init_def ring_count_def ring_contents_def)

lemma lastn_append_long: "n \<le> length ys \<Longrightarrow> lastn n (xs @ ys) = lastn n ys"
  by (simp add: lastn_def)

lemma lastn_short: "length xs \<le> n \<Longrightarrow> lastn n xs = xs"
  by (simp add: lastn_def)

lemma drained_single:
  assumes inv: "ring_inv r" and ne: "audio_buffer_start r \<noteq> audio_buffer_end r"
    and hit: "(audio_buffer_start r + min m (availableContiguous r)) mod BUFFER_SIZE
              = audio_buffer_end r"
  shows "drained_output r [m] = Some (take (min m (availableContiguous r)) (ring_contents r))"
proof -
  note p = ring_read_props [OF inv ne, where m = m, folded availableContiguous_def]
  note c = ring_read_contents(1) [OF inv p(1)]
  show ?thesis
    using hit by (simp add: drained_output_def p(1) c [symmetric])
qed

text \<open>
  Claim C4. On a non-empty ring buffer a read of \<open>maxBytes\<close> returns exactly
  \<open>min maxBytes availableContiguous\<close> bytes, the ones stored from \<open>start\<close> on, and
  advances \<open>start\<close> by that amount (modulo the capacity). The bytes end at or before the
  end of the array, so none comes from across the wrap boundary, also when the buffer
  holds more unread bytes than it returns.
\<close>

theorem read_contiguous:
  assumes "ring_inv r" and "audio_buffer_start r \<noteq> audio_buffer_end r"
  shows "ring_read r maxBytes =
      Some (min maxBytes (availableContiguous r),
            map (\<lambda>k. audio_buffer r ! (audio_buffer_start r + k))
                [0..<min maxBytes (availableContiguous r)],
            r\<lparr>audio_buffer_start :=
                 (audio_buffer_start r + min maxBytes (availableContiguous r)) mod BUFFER_SIZE\<rparr>) \<and>
    audio_buffer_start r + min maxBytes (availableContiguous r) \<le> BUFFER_SIZE \<and>
    min maxBytes (availableContiguous r) \<le> ring_count r"
proof -
  let ?n = "min maxBytes (availableContiguous r)"
  note p = ring_read_props [OF assms, where m = maxBytes, folded availableContiguous_def]
  have len: "length (audio_buffer r) = BUFFER_SIZE" using assms(1) by (simp add: ring_inv_def)
  have "take ?n (drop (audio_buffer_start r) (audio_buffer r))
        = map (\<lambda>k. audio_buffer r ! (audio_buffer_start r + k)) [0..<?n]"
  proof (rule nth_equalityI)
    show "length (take ?n (drop (audio_buffer_start r) (audio_buffer r)))
          = length (map (\<lambda>k. audio_buffer r ! (audio_buffer_start r + k)) [0..<?n])"
      using p(2) len by simp
  next
    fix k assume "k < length (take ?n (drop (audio_buffer_start r) (audio_buffer r)))"
    then have k: "k < ?n" by simp
    then have "audio_buffer_start r + k < audio_buffer_start r + min maxBytes (availableContiguous r)"
      by (simp only: nat_add_left_cancel_less)
    then have "audio_buffer_start r + k < length (audio_buffer r)"
      using p(2) unfolding len by (rule less_le_trans)
    then show "take ?n (drop (audio_buffer_start r) (audio_buffer r)) ! k
          = map (\<lambda>k. audio_buffer r ! (audio_buffer_start r + k)) [0..<?n] ! k"
      using k by simp
  qed
  then show ?thesis using p(1,2,3) by simp
qed

theorem read_contiguous_witness:
  "ring_inv wrapped_ring \<and> audio_buffer_start wrapped_ring \<noteq> audio_buffer_end wrapped_ring \<and>
   ring_count wrapped_ring = 4 \<and>
   ring_read wrapped_ring 10 =
     Some (2, [0, 0], wrapped_ring\<lparr>audio_buffer_start := 0\<rparr>)"
proof -
  have h1: "ring_inv wrapped_ring"
    by (simp add: wrapped_ring_def ring_inv_def ring_init_def BUFFER_SIZE_def)
  have h2: "audio_buffer_start wrapped_ring \<noteq> audio_buffer_end wrapped_ring"
    by (simp add: wrapped_ring_def)
  have a: "availableContiguous wrapped_ring = 2"
    by (simp add: availableContiguous_def wrapped_ring_def BUFFER_SIZE_def)
  have c: "ring_count wrapped_ring = 4"
    by (simp add: ring_count_def wrapped_ring_def BUFFER_SIZE_def)
  have u: "[0..<2::nat] = [0, 1]" by code_simp
  have m: "map (\<lambda>k. audio_buffer wrapped_ring ! (audio_buffer_start wrapped_ring + k)) [0..<2]
           = [0, 0]"
    by (simp add: wrapped_ring_def ring_init_def BUFFER_SIZE_def u)
  have s: "(audio_buffer_start wrapped_ring + 2) mod BUFFER_SIZE = 0"
    by (simp add: wrapped_ring_def BUFFER_SIZE_def)
  have mn: "min 10 (availableContiguous wrapped_ring) = 2" by (simp add: a)
  have rd: "ring_read wrapped_ring 10 = Some (2, [0, 0], wrapped_ring\<lparr>audio_buffer_start := 0\<rparr>)"
    using read_contiguous [OF h1 h2, of 10, unfolded mn m s] by (rule conjunct1)
  show ?thesis
    using h1 h2 c rd by (intro conjI)
qed

text \<open>
  Claim C2, amended. After producer writes whose total byte count exceeds the capacity,
  the unread contents of the buffer are exactly the most recently written
  \<open>BUFFER_SIZE - 1\<close> bytes of the concatenated stream, in order.
\<close>

theorem overflow_keeps_newest:
  assumes "ring_inv r" and "BUFFER_SIZE < length (concat ws)"
  shows "ring_contents (ring_writes r ws) = lastn (BUFFER_SIZE - 1) (concat ws)"
proof -
  have "ring_contents (ring_writes r ws) = lastn (BUFFER_SIZE - 1) (ring_contents r @ concat ws)"
    using assms(1) by (simp add: ring_writes_concat copy_loop_contents)
  also have "\<dots> = lastn (BUFFER_SIZE - 1) (concat ws)"
    using assms(2) by (intro lastn_append_long) simp
  finally show ?thesis .
qed

theorem overflow_keeps_newest_witness:
  "ring_inv ring_init \<and> BUFFER_SIZE < length (concat long_writes) \<and>
   ring_contents (ring_writes ring_init long_writes) = replicate 102396 7 @ [1, 2, 3]"
proof -
  have h1: "ring_inv ring_init" by (rule ring_inv_init)
  have h2: "BUFFER_SIZE < length (concat long_writes)"
    by (simp add: long_writes_def BUFFER_SIZE_def)
  have "lastn (BUFFER_SIZE - 1) (concat long_writes) = replicate 102396 7 @ [1, 2, 3]"
    by (simp add: long_writes_def BUFFER_SIZE_def lastn_def)
  then show ?thesis
    using h1 h2 overflow_keeps_newest [OF h1 h2] by simp
qed

text \<open>
  Claim C2 as stated fails: after 102401 bytes written into the initial buffer it holds
  102399 unread bytes, not the last 102400.
\<close>

theorem overflow_loses_one_more_byte:
  "BUFFER_SIZE < length (concat [replicate 102401 (1::u8)]) \<and>
   length (ring_contents (ring_writes ring_init [replicate 102401 1])) = 102399 \<and>
   ring_contents (ring_writes ring_init [replicate 102401 1])
     \<noteq> lastn BUFFER_SIZE (concat [replicate 102401 1])"
proof -
  have c: "ring_contents (ring_writes ring_init [replicate 102401 1])
        = lastn (BUFFER_SIZE - 1) (replicate 102401 1)"
    using copy_loop_contents [OF ring_inv_init, of "replicate 102401 1"] by simp
  have l1: "length (lastn (BUFFER_SIZE - 1) (replicate 102401 (1::u8))) = 102399"
    by (simp add: lastn_def BUFFER_SIZE_def)
  have l2: "length (lastn BUFFER_SIZE (concat [replicate 102401 (1::u8)])) = 102400"
    by (simp add: lastn_def BUFFER_SIZE_def)
  have ne: "ring_contents (ring_writes ring_init [replicate 102401 1])
     \<noteq> lastn BUFFER_SIZE (concat [replicate 102401 1])"
  proof
    assume "ring_contents (ring_writes ring_init [replicate 102401 1])
      = lastn BUFFER_SIZE (concat [replicate 102401 1])"
    then have "length (lastn (BUFFER_SIZE - 1) (replicate 102401 (1::u8)))
      = length (lastn BUFFER_SIZE (concat [replicate 102401 (1::u8)]))"
      by (simp only: c)
    then show False by (simp only: l1 l2)
  qed
  have len: "length (ring_contents (ring_writes ring_init [replicate 102401 1])) = 102399"
    using l1 by (simp only: c)
  have h: "BUFFER_SIZE < length (concat [replicate 102401 (1::u8)])"
    by (simp add: BUFFER_SIZE_def)
  show ?thesis
    using h len ne by (intro conjI)
qed

lemma drained_cons:
  assumes "ring_read r m = Some (n, out, r1)" and "drained_output r1 ms = Some rest"
  shows "drained_output r (m # ms) = Some (out @ rest)"
  using assms by (auto simp add: drained_output_def split: option.splits if_splits)

lemma drained_unwrapped:
  assumes inv: "ring_inv r"
    and ne: "audio_buffer_start r \<noteq> audio_buffer_end r"
    and uw: "audio_buffer_start r < audio_buffer_end r \<or> audio_buffer_end r = 0"
  shows "drained_output r [BUFFER_SIZE] = Some (ring_contents r)"
proof -
  from inv have s: "audio_buffer_start r < BUFFER_SIZE" and e: "audio_buffer_end r < BUFFER_SIZE"
    by (simp_all add: ring_inv_def)
  have a: "availableContiguous r = ring_count r"
    using s e ne uw by (auto simp add: availableContiguous_def ring_count_alt [OF inv])
  have m: "min BUFFER_SIZE (availableContiguous r) = ring_count r"
    using ring_count_lt [OF inv] by (simp add: a)
  have hit: "(audio_buffer_start r + min BUFFER_SIZE (availableContiguous r)) mod BUFFER_SIZE
             = audio_buffer_end r"
    unfolding m by (rule idx_end [OF inv])
  show ?thesis
    using drained_single [OF inv ne hit] by (simp add: m)
qed

lemma drain_plan_drains:
  assumes inv: "ring_inv r"
  shows "drained_output r (drain_plan r) = Some (ring_contents r)"
proof -
  from inv have s: "audio_buffer_start r < BUFFER_SIZE" and e: "audio_buffer_end r < BUFFER_SIZE"
    by (simp_all add: ring_inv_def)
  consider (empty) "audio_buffer_start r = audio_buffer_end r"
    | (unwrapped) "audio_buffer_start r \<noteq> audio_buffer_end r"
        "audio_buffer_start r < audio_buffer_end r \<or> audio_buffer_end r = 0"
    | (wrapped) "audio_buffer_end r < audio_buffer_start r" "0 < audio_buffer_end r"
    by linarith
  then show ?thesis
  proof cases
    case empty
    then show ?thesis
      by (simp add: drain_plan_def drained_output_def empty_contents)
  next
    case unwrapped
    then show ?thesis
      using drained_unwrapped [OF inv] by (simp add: drain_plan_def)
  next
    case wrapped
    then have ne: "audio_buffer_start r \<noteq> audio_buffer_end r" by simp
    define n where "n = BUFFER_SIZE - audio_buffer_start r"
    have n: "min BUFFER_SIZE (if audio_buffer_end r > audio_buffer_start r
                        then audio_buffer_end r - audio_buffer_start r
                        else BUFFER_SIZE - audio_buffer_start r) = n"
      using wrapped by (simp add: n_def)
    define r1 where "r1 = r\<lparr>audio_buffer_start := (audio_buffer_start r + n) mod BUFFER_SIZE\<rparr>"
    note p = ring_read_props [OF inv ne, where m = BUFFER_SIZE, unfolded n, folded r1_def]
    note c = ring_read_contents [OF inv p(1)]
    have s1: "audio_buffer_start r1 = 0" using s by (simp add: r1_def n_def)
    have e1: "audio_buffer_end r1 = audio_buffer_end r" by (simp add: r1_def)
    have "drained_output r1 [BUFFER_SIZE] = Some (ring_contents r1)"
      using wrapped(2) by (intro drained_unwrapped c(3)) (simp_all add: s1 e1)
    then have "drained_output r [BUFFER_SIZE, BUFFER_SIZE]
        = Some (take n (drop (audio_buffer_start r) (audio_buffer r)) @ ring_contents r1)"
      using p(1) by (intro drained_cons)
    then show ?thesis
      using wrapped c(1,2) by (simp add: drain_plan_def)
  qed
qed

text \<open>
  Claim C3, amended. After writes of at most \<open>BUFFER_SIZE - 1\<close> bytes in total into an
  empty ring buffer, the buffer can be drained by at most two reads, and every sequence of
  reads that leaves the buffer empty returns exactly the written bytes, in order.
\<close>

theorem write_then_drain:
  assumes "ring_inv r" and "audio_buffer_start r = audio_buffer_end r"
    and "length (concat ws) \<le> BUFFER_SIZE - 1"
  shows "drained_output (ring_writes r ws) (drain_plan (ring_writes r ws)) = Some (concat ws) \<and>
    (\<forall>ms out. drained_output (ring_writes r ws) ms = Some out \<longrightarrow> out = concat ws)"
proof -
  have inv': "ring_inv (ring_writes r ws)"
    using assms(1) by (simp add: ring_writes_concat copy_loop_inv)
  have "ring_contents (ring_writes r ws) = lastn (BUFFER_SIZE - 1) (ring_contents r @ concat ws)"
    using assms(1) by (simp add: ring_writes_concat copy_loop_contents)
  also have "\<dots> = concat ws"
    using assms(3) by (simp add: empty_contents [OF assms(2)] lastn_short)
  finally have c: "ring_contents (ring_writes r ws) = concat ws" .
  have "drained_output (ring_writes r ws) (drain_plan (ring_writes r ws)) = Some (concat ws)"
    using drain_plan_drains [OF inv'] by (simp only: c)
  moreover have "out = concat ws" if "drained_output (ring_writes r ws) ms = Some out" for ms out
    using drained_output_contents [OF inv' that] by (simp only: c)
  ultimately show ?thesis by blast
qed

lemma writes_from_init:
  "ring_inv (ring_writes ring_init ws)"
  "audio_buffer_end (ring_writes ring_init ws) = length (concat ws) mod BUFFER_SIZE"
  "audio_buffer_start (ring_writes ring_init ws) =
     (if length (concat ws) \<le> BUFFER_SIZE - 1 then 0
      else (length (concat ws) + 1) mod BUFFER_SIZE)"
  "ring_contents (ring_writes ring_init ws) = lastn (BUFFER_SIZE - 1) (concat ws)"
  using ring_inv_init
  by (simp_all add: ring_writes_concat copy_loop_inv copy_loop_end copy_loop_start
        copy_loop_contents)

theorem write_then_drain_witness:
  "ring_inv ring_init \<and> audio_buffer_start ring_init = audio_buffer_end ring_init \<and>
   length (concat short_writes) \<le> BUFFER_SIZE - 1 \<and>
   drained_output (ring_writes ring_init short_writes) [5] = Some [1, 2, 3] \<and>
   [1, 2, 3] = concat short_writes"
proof -
  define r where "r = ring_writes ring_init short_writes"
  note w = writes_from_init [of short_writes, folded r_def]
  have n: "length (concat short_writes) = 3" by (simp add: short_writes_def)
  have h1: "ring_inv ring_init" by (rule ring_inv_init)
  have h2: "audio_buffer_start ring_init = audio_buffer_end ring_init" by simp
  have h3: "length (concat short_writes) \<le> BUFFER_SIZE - 1"
    by (simp add: n BUFFER_SIZE_def)
  have e: "audio_buffer_end r = 3"
    unfolding w(2) n by (simp add: BUFFER_SIZE_def)
  have s: "audio_buffer_start r = 0"
    unfolding w(3) n by (simp add: BUFFER_SIZE_def)
  have a: "availableContiguous r = 3"
    by (simp add: availableContiguous_def e s)
  have c: "ring_contents r = [1, 2, 3]"
    unfolding w(4) by (simp add: lastn_def short_writes_def BUFFER_SIZE_def)
  have ne: "audio_buffer_start r \<noteq> audio_buffer_end r" by (simp add: e s)
  have hit: "(audio_buffer_start r + min 5 (availableContiguous r)) mod BUFFER_SIZE
             = audio_buffer_end r"
    by (simp add: e s a BUFFER_SIZE_def)
  have "drained_output r [5] = Some [1, 2, 3]"
    using drained_single [OF w(1) ne hit] by (simp add: a c)
  then have h4: "drained_output (ring_writes ring_init short_writes) [5] = Some [1, 2, 3]"
    by (simp only: r_def)
  have "[1, 2, 3] = concat short_writes"
    using write_then_drain [OF h1 h2 h3] h4 by blast
  then show ?thesis
    using h1 h2 h3 h4 by (intro conjI)
qed

text \<open>
  Claim C3 as stated fails at a total of exactly the capacity: 102400 bytes written into
  the empty initial buffer are drained by one read, which returns 102399 of them.
\<close>

theorem write_capacity_loses_first_byte:
  "audio_buffer_start ring_init = audio_buffer_end ring_init \<and>
   length (concat [replicate 102400 (1::u8)]) \<le> BUFFER_SIZE \<and>
   drained_output (ring_writes ring_init [replicate 102400 1]) [102400]
     = Some (replicate 102399 1) \<and>
   replicate 102399 (1::u8) \<noteq> concat [replicate 102400 1]"
proof -
  define r where "r = ring_writes ring_init [replicate 102400 (1::u8)]"
  note w = writes_from_init [of "[replicate 102400 (1::u8)]", folded r_def]
  have n: "length (concat [replicate 102400 (1::u8)]) = 102400" by simp
  have e: "audio_buffer_end r = 0"
    unfolding w(2) n by (simp add: BUFFER_SIZE_def)
  have s: "audio_buffer_start r = 1"
    unfolding w(3) n by (simp add: BUFFER_SIZE_def)
  have a: "availableContiguous r = 102399"
    by (simp add: availableContiguous_def e s BUFFER_SIZE_def)
  have c: "ring_contents r = replicate 102399 1"
    unfolding w(4) by (simp add: lastn_def BUFFER_SIZE_def)
  have ne: "audio_buffer_start r \<noteq> audio_buffer_end r" by (simp add: e s)
  have hit: "(audio_buffer_start r + min 102400 (availableContiguous r)) mod BUFFER_SIZE
             = audio_buffer_end r"
    by (simp add: e s a BUFFER_SIZE_def)
  have "drained_output r [102400] = Some (replicate 102399 1)"
    using drained_single [OF w(1) ne hit] by (simp add: a c)
  then have d: "drained_output (ring_writes ring_init [replicate 102400 1]) [102400]
     = Some (replicate 102399 1)"
    by (simp only: r_def)
  have h2: "audio_buffer_start ring_init = audio_buffer_end ring_init" by simp
  have h3: "length (concat [replicate 102400 (1::u8)]) \<le> BUFFER_SIZE"
    by (simp add: BUFFER_SIZE_def)
  have neq: "replicate 102399 (1::u8) \<noteq> concat [replicate 102400 1]"
  proof
    assume "replicate 102399 (1::u8) = concat [replicate 102400 1]"
    then have "length (replicate 102399 (1::u8)) = length (concat [replicate 102400 (1::u8)])"
      by (rule arg_cong)
    then show False by simp
  qed
  show ?thesis
    using h2 h3 d neq by (intro conjI)
qed

section \<open>The capture path and its frame size\<close>

text \<open>
  Claim C8. The capture stream is registered as mono 16-bit PCM, two bytes per frame, and
  the claim has the callback read \<open>requested * 2\<close> bytes and set the stride to 2. The code
  uses the constant 4 throughout: for one requested frame and six unread bytes it copies
  four bytes, sets the stride to 4 and reports one frame.
\<close>

theorem capture_uses_four_byte_frames:
  "frame_bytes parse_audio_info_mic = 2 \<and> frame_bytes parse_audio_info = 4 \<and>
   source_playback_process ring6 (Some one_frame_buffer)
     = Some (ring6\<lparr>audio_buffer_start := 4\<rparr>, Some one_frame_result,
             [StreamQueueBuffer one_frame_result])"
  by (simp add: frame_bytes_def parse_audio_info_mic_def parse_audio_info_def
        parse_position_def format_from_name_def SPA_AUDIO_MAX_CHANNELS_def sample_bytes_def
        source_playback_process_def ring_read_def ring6_def one_frame_buffer_def
        one_frame_result_def BUFFER_SIZE_def Let_def)

end
